theory Spec2Isabelle
  imports Main
begin

section \<open>An insertion-ordered map: a key index over a doubly linked sequence\<close>

text \<open>
  The Go package \<open>orderedmap\<close> (file \<open>orderedmap.go\<close>) keeps two structures in step:
  a Go map from keys to pointers to \<open>Pair\<close> objects, and a doubly linked list whose
  elements carry the same pointers. Both structures alias the \<open>Pair\<close> objects, so the
  model keeps an explicit store for the \<open>Pair\<close> objects and one for the list elements.
  Pointers are natural numbers; a nullable pointer is an \<open>option\<close>.
\<close>

subsection \<open>Errors\<close>

text \<open>
  \<open>NilDereference\<close> is Go's panic on reading a field through a nil (or unallocated)
  pointer. \<open>InvalidHandle\<close> is the use of a list element that is not (or no longer) in
  the list, which the specification leaves undefined. \<open>OutOfFuel\<close> is not a Go error:
  it marks a traversal loop that has not ended within the given number of steps.
\<close>

datatype error = NilDereference | InvalidHandle | OutOfFuel

subsection \<open>The linked sequence (package \<open>list\<close>)\<close>

type_synonym handle = nat
type_synonym pref = nat

text \<open>Modelled from the spec: the node type of the package \<open>list\<close>, which is imported by
  \<open>orderedmap.go\<close> but whose source is absent. Section 3: a node holds a payload (an Entry
  reference) and links to the previous and next nodes, absent at the ends.\<close>

record Element =
  payload :: pref
  next_link :: "handle option"
  prev_link :: "handle option"

text \<open>Modelled from the spec: the list type of the absent package \<open>list\<close> (section 4.1): the
  live nodes, the head and tail handles (\<open>Front\<close>, \<open>Back\<close>), the O(1) count of live nodes
  (\<open>Len\<close>), and the next handle that an append allocates.\<close>

record List =
  nodes :: "handle \<rightharpoonup> Element"
  head :: "handle option"
  tail :: "handle option"
  count :: nat
  fresh :: handle

text \<open>Modelled from the spec: \<open>list.New\<close> of the absent package \<open>list\<close>, the empty
  sequence.\<close>

definition list_New :: List where
  "list_New = \<lparr>nodes = Map.empty, head = None, tail = None, count = 0, fresh = 0\<rparr>"

text \<open>Modelled from the spec: helper of the absent package \<open>list\<close>, the assignment
  \<open>e.next = v\<close> on a live node (section 4.1, relinking).\<close>

definition set_next :: "(handle \<rightharpoonup> Element) \<Rightarrow> handle \<Rightarrow> handle option \<Rightarrow> (handle \<rightharpoonup> Element)" where
  "set_next ns h v = (case ns h of None \<Rightarrow> ns | Some e \<Rightarrow> ns(h \<mapsto> e\<lparr>next_link := v\<rparr>))"

text \<open>Modelled from the spec: helper of the absent package \<open>list\<close>, the assignment
  \<open>e.prev = v\<close> on a live node (section 4.1, relinking).\<close>

definition set_prev :: "(handle \<rightharpoonup> Element) \<Rightarrow> handle \<Rightarrow> handle option \<Rightarrow> (handle \<rightharpoonup> Element)" where
  "set_prev ns h v = (case ns h of None \<Rightarrow> ns | Some e \<Rightarrow> ns(h \<mapsto> e\<lparr>prev_link := v\<rparr>))"

text \<open>Modelled from the spec: \<open>PushBack\<close> of the absent package \<open>list\<close> (section 4.1):
  appends the payload as the new tail node and returns its handle; it always succeeds.\<close>

definition PushBack :: "List \<Rightarrow> pref \<Rightarrow> handle \<times> List" where
  "PushBack l v =
     (let h = fresh l;
          e = \<lparr>payload = v, next_link = None, prev_link = tail l\<rparr>;
          ns = (case tail l of None \<Rightarrow> nodes l | Some t \<Rightarrow> set_next (nodes l) t (Some h))
      in (h, l\<lparr>nodes := ns(h \<mapsto> e),
               head := (case tail l of None \<Rightarrow> Some h | Some t \<Rightarrow> head l),
               tail := Some h,
               count := count l + 1,
               fresh := Suc h\<rparr>))"

text \<open>Modelled from the spec: \<open>Remove\<close> of the absent package \<open>list\<close> (section 4.1):
  unlinks the node of the handle, relinks its neighbours and decrements the length; a handle
  that is not live is a misuse, reported here as \<open>InvalidHandle\<close>.\<close>

definition Remove :: "List \<Rightarrow> handle \<Rightarrow> error + List" where
  "Remove l h =
     (case nodes l h of
        None \<Rightarrow> Inl InvalidHandle
      | Some e \<Rightarrow>
          (let ns1 = (case prev_link e of None \<Rightarrow> nodes l
                      | Some p \<Rightarrow> set_next (nodes l) p (next_link e));
               ns2 = (case next_link e of None \<Rightarrow> ns1
                      | Some n \<Rightarrow> set_prev ns1 n (prev_link e))
           in Inr (l\<lparr>nodes := ns2(h := None),
                     head := (case prev_link e of None \<Rightarrow> next_link e | Some p \<Rightarrow> head l),
                     tail := (case next_link e of None \<Rightarrow> prev_link e | Some n \<Rightarrow> tail l),
                     count := count l - 1\<rparr>)))"

text \<open>Modelled from the spec: \<open>Front\<close> of the absent package \<open>list\<close>: the handle of the
  head node, absent if the sequence is empty.\<close>

definition Front :: "List \<Rightarrow> handle option" where
  "Front l = head l"

text \<open>Modelled from the spec: \<open>Back\<close> of the absent package \<open>list\<close>: the handle of the
  tail node, absent if the sequence is empty.\<close>

definition Back :: "List \<Rightarrow> handle option" where
  "Back l = tail l"

text \<open>Modelled from the spec: \<open>Len\<close> of the absent package \<open>list\<close>: the count of live
  nodes.\<close>

definition list_Len :: "List \<Rightarrow> nat" where
  "list_Len l = count l"

text \<open>Modelled from the spec: \<open>Element.Next\<close> of the absent package \<open>list\<close>: the
  neighbour handle, absent at the boundary; a handle that is not live is a misuse.\<close>

definition list_Next :: "List \<Rightarrow> handle \<Rightarrow> error + handle option" where
  "list_Next l h = (case nodes l h of None \<Rightarrow> Inl InvalidHandle | Some e \<Rightarrow> Inr (next_link e))"

text \<open>Modelled from the spec: \<open>Element.Prev\<close> of the absent package \<open>list\<close>: the
  neighbour handle, absent at the boundary; a handle that is not live is a misuse.\<close>

definition list_Prev :: "List \<Rightarrow> handle \<Rightarrow> error + handle option" where
  "list_Prev l h = (case nodes l h of None \<Rightarrow> Inl InvalidHandle | Some e \<Rightarrow> Inr (prev_link e))"

subsection \<open>The ordered map (\<open>orderedmap.go\<close>)\<close>

text \<open>The struct \<open>Pair\<close> (lines 14-19); \<open>element\<close> is nil until \<open>Set\<close> assigns it.\<close>

record ('k, 'v) Pair_t =
  Key :: 'k
  Value :: 'v
  element :: "handle option"

text \<open>
  The struct \<open>OrderedMap\<close> (lines 21-24) with the part of the Go heap it reaches:
  \<open>pairs\<close> is the Go map from keys to \<open>*Pair\<close>, \<open>list_om\<close> is the field \<open>list\<close>,
  \<open>store\<close> holds the \<open>Pair\<close> objects that \<open>&Pair{...}\<close> has allocated and
  \<open>store_next\<close> is the address the next allocation returns.
\<close>

record ('k, 'v) OrderedMap =
  pairs :: "'k \<rightharpoonup> pref"
  list_om :: List
  store :: "pref \<rightharpoonup> ('k, 'v) Pair_t"
  store_next :: pref

text \<open>\<open>New\<close> (lines 27-32). It has no parameter.\<close>

definition New :: "('k, 'v) OrderedMap" where
  "New = \<lparr>pairs = Map.empty, list_om = list_New, store = Map.empty, store_next = 0\<rparr>"

text \<open>
  A call of \<open>New\<close> with an optional pre-size argument: the signature at line 27 has an
  empty parameter list, so the call with an argument is rejected (it does not compile) and
  only the call without one constructs a map.
\<close>

definition New_call :: "nat option \<Rightarrow> ('k, 'v) OrderedMap option" where
  "New_call capacity = (case capacity of None \<Rightarrow> Some New | Some n \<Rightarrow> None)"

text \<open>
  \<open>Get\<close> (lines 36-42). The first argument is Go's zero value of the value type
  (\<open>var empty V\<close>). The method has a pointer receiver; the map after the call is returned
  with the result.
\<close>

definition Get :: "'v \<Rightarrow> ('k, 'v) OrderedMap \<Rightarrow> 'k \<Rightarrow> error + (('v \<times> bool) \<times> ('k, 'v) OrderedMap)" where
  "Get empty_v om key =
     (case pairs om key of
        Some p \<Rightarrow> (case store om p of
                     None \<Rightarrow> Inl NilDereference
                   | Some pair \<Rightarrow> Inr ((Value pair, True), om))
      | None \<Rightarrow> Inr ((empty_v, False), om))"

text \<open>\<open>GetPair\<close> (lines 47-49): the pointer stored in the index, nil if there is none.\<close>

definition GetPair :: "('k, 'v) OrderedMap \<Rightarrow> 'k \<Rightarrow> pref option" where
  "GetPair om key = pairs om key"

text \<open>\<open>Set\<close> (lines 53-70).\<close>

definition Set :: "'v \<Rightarrow> ('k, 'v) OrderedMap \<Rightarrow> 'k \<Rightarrow> 'v \<Rightarrow> error + (('v \<times> bool) \<times> ('k, 'v) OrderedMap)" where
  "Set empty_v om key value =
     (case pairs om key of
        Some p \<Rightarrow> (case store om p of
                     None \<Rightarrow> Inl NilDereference
                   | Some pair \<Rightarrow>
                       Inr ((Value pair, True),
                            om\<lparr>store := (store om)(p \<mapsto> pair\<lparr>Value := value\<rparr>)\<rparr>))
      | None \<Rightarrow>
          (let p = store_next om;
               pair = \<lparr>Key = key, Value = value, element = None\<rparr>;
               (h, l) = PushBack (list_om om) p
           in Inr ((empty_v, False),
                   om\<lparr>pairs := (pairs om)(key \<mapsto> p),
                      list_om := l,
                      store := (store om)(p \<mapsto> pair\<lparr>element := Some h\<rparr>),
                      store_next := Suc p\<rparr>)))"

text \<open>\<open>Delete\<close> (lines 74-83).\<close>

definition Delete :: "'v \<Rightarrow> ('k, 'v) OrderedMap \<Rightarrow> 'k \<Rightarrow> error + (('v \<times> bool) \<times> ('k, 'v) OrderedMap)" where
  "Delete empty_v om key =
     (case pairs om key of
        Some p \<Rightarrow> (case store om p of
                     None \<Rightarrow> Inl NilDereference
                   | Some pair \<Rightarrow>
                       (case element pair of
                          None \<Rightarrow> Inl NilDereference
                        | Some h \<Rightarrow>
                            (case Remove (list_om om) h of
                               Inl e \<Rightarrow> Inl e
                             | Inr l \<Rightarrow>
                                 Inr ((Value pair, True),
                                      om\<lparr>list_om := l, pairs := (pairs om)(key := None)\<rparr>))))
      | None \<Rightarrow> Inr ((empty_v, False), om))"

text \<open>\<open>Len\<close> (lines 86-88): \<open>len(om.pairs)\<close>, the number of keys of the Go map.\<close>

definition Len :: "('k, 'v) OrderedMap \<Rightarrow> nat" where
  "Len om = card (dom (pairs om))"

text \<open>\<open>listElementToPair\<close> (lines 115-120): nil for nil, else the element's \<open>Value\<close>.\<close>

definition listElementToPair :: "('k, 'v) OrderedMap \<Rightarrow> handle option \<Rightarrow> error + pref option" where
  "listElementToPair om el =
     (case el of
        None \<Rightarrow> Inr None
      | Some h \<Rightarrow> (case nodes (list_om om) h of
                     None \<Rightarrow> Inl InvalidHandle
                   | Some e \<Rightarrow> Inr (Some (payload e))))"

text \<open>\<open>Oldest\<close> (lines 93-96) and \<open>Newest\<close> (lines 101-103).\<close>

definition Oldest :: "('k, 'v) OrderedMap \<Rightarrow> error + pref option" where
  "Oldest om = listElementToPair om (Front (list_om om))"

definition Newest :: "('k, 'v) OrderedMap \<Rightarrow> error + pref option" where
  "Newest om = listElementToPair om (Back (list_om om))"

text \<open>\<open>Pair.Next\<close> (lines 106-108) and \<open>Pair.Prev\<close> (lines 111-113), on a pointer to a
  \<open>Pair\<close>.\<close>

definition Next :: "('k, 'v) OrderedMap \<Rightarrow> pref \<Rightarrow> error + pref option" where
  "Next om p =
     (case store om p of
        None \<Rightarrow> Inl NilDereference
      | Some pair \<Rightarrow>
          (case element pair of
             None \<Rightarrow> Inl NilDereference
           | Some h \<Rightarrow> (case list_Next (list_om om) h of
                          Inl e \<Rightarrow> Inl e
                        | Inr n \<Rightarrow> listElementToPair om n)))"

definition Prev :: "('k, 'v) OrderedMap \<Rightarrow> pref \<Rightarrow> error + pref option" where
  "Prev om p =
     (case store om p of
        None \<Rightarrow> Inl NilDereference
      | Some pair \<Rightarrow>
          (case element pair of
             None \<Rightarrow> Inl NilDereference
           | Some h \<Rightarrow> (case list_Prev (list_om om) h of
                          Inl e \<Rightarrow> Inl e
                        | Inr n \<Rightarrow> listElementToPair om n)))"

subsection \<open>Traversal loops\<close>

text \<open>
  The loop of the documentation of \<open>Oldest\<close> and of the tests,
  \<open>for pair := start; pair != nil; pair = pair.Next() { ... pair.Key, pair.Value ... }\<close>,
  collecting the visited (key, value) pairs. The first argument bounds the number of
  iterations; a loop that needs more yields \<open>OutOfFuel\<close>.
\<close>

fun iterate_next :: "nat \<Rightarrow> ('k, 'v) OrderedMap \<Rightarrow> pref option \<Rightarrow> error + ('k \<times> 'v) list" where
  "iterate_next fuel om None = Inr []"
| "iterate_next 0 om (Some p) = Inl OutOfFuel"
| "iterate_next (Suc fuel) om (Some p) =
     (case store om p of
        None \<Rightarrow> Inl NilDereference
      | Some pair \<Rightarrow>
          (case Next om p of
             Inl e \<Rightarrow> Inl e
           | Inr n \<Rightarrow> (case iterate_next fuel om n of
                         Inl e \<Rightarrow> Inl e
                       | Inr rest \<Rightarrow> Inr ((Key pair, Value pair) # rest))))"

text \<open>The same loop with \<open>pair.Prev()\<close>.\<close>

fun iterate_prev :: "nat \<Rightarrow> ('k, 'v) OrderedMap \<Rightarrow> pref option \<Rightarrow> error + ('k \<times> 'v) list" where
  "iterate_prev fuel om None = Inr []"
| "iterate_prev 0 om (Some p) = Inl OutOfFuel"
| "iterate_prev (Suc fuel) om (Some p) =
     (case store om p of
        None \<Rightarrow> Inl NilDereference
      | Some pair \<Rightarrow>
          (case Prev om p of
             Inl e \<Rightarrow> Inl e
           | Inr n \<Rightarrow> (case iterate_prev fuel om n of
                         Inl e \<Rightarrow> Inl e
                       | Inr rest \<Rightarrow> Inr ((Key pair, Value pair) # rest))))"

text \<open>Traversal from \<open>Oldest()\<close> by \<open>Next()\<close>, and from \<open>Newest()\<close> by \<open>Prev()\<close>.\<close>

definition forward :: "nat \<Rightarrow> ('k, 'v) OrderedMap \<Rightarrow> error + ('k \<times> 'v) list" where
  "forward fuel om = (case Oldest om of Inl e \<Rightarrow> Inl e | Inr start \<Rightarrow> iterate_next fuel om start)"

definition backward :: "nat \<Rightarrow> ('k, 'v) OrderedMap \<Rightarrow> error + ('k \<times> 'v) list" where
  "backward fuel om = (case Newest om of Inl e \<Rightarrow> Inl e | Inr start \<Rightarrow> iterate_prev fuel om start)"

subsection \<open>Sequences of mutating calls\<close>

datatype ('k, 'v) op = SetOp 'k 'v | DeleteOp 'k

fun apply_op :: "'v \<Rightarrow> ('k, 'v) OrderedMap \<Rightarrow> ('k, 'v) op \<Rightarrow> error + ('k, 'v) OrderedMap" where
  "apply_op empty_v om (SetOp k v) =
     (case Set empty_v om k v of Inl e \<Rightarrow> Inl e | Inr (r, om') \<Rightarrow> Inr om')"
| "apply_op empty_v om (DeleteOp k) =
     (case Delete empty_v om k of Inl e \<Rightarrow> Inl e | Inr (r, om') \<Rightarrow> Inr om')"

fun run :: "'v \<Rightarrow> ('k, 'v) OrderedMap \<Rightarrow> ('k, 'v) op list \<Rightarrow> error + ('k, 'v) OrderedMap" where
  "run empty_v om [] = Inr om"
| "run empty_v om (x # xs) =
     (case apply_op empty_v om x of Inl e \<Rightarrow> Inl e | Inr om' \<Rightarrow> run empty_v om' xs)"

subsection \<open>The specification's view of the operations\<close>

text \<open>
  The association between keys and values as the specification words it (section 4.2):
  \<open>Set\<close> associates the key with the value, \<open>Delete\<close> removes the key. It is stated
  apart from the code, for comparison with what \<open>Get\<close> returns.
\<close>

fun spec_apply :: "('k \<rightharpoonup> 'v) \<Rightarrow> ('k, 'v) op \<Rightarrow> ('k \<rightharpoonup> 'v)" where
  "spec_apply m (SetOp k v) = m(k \<mapsto> v)"
| "spec_apply m (DeleteOp k) = m(k := None)"

definition spec_assoc :: "('k, 'v) op list \<Rightarrow> ('k \<rightharpoonup> 'v)" where
  "spec_assoc ops = foldl spec_apply Map.empty ops"

text \<open>The position of a key in a traversal order: the number of keys visited before it.\<close>

definition position :: "'k \<Rightarrow> 'k list \<Rightarrow> nat" where
  "position k ks = length (takeWhile (\<lambda>k'. k' \<noteq> k) ks)"

subsection \<open>The abstraction: the cells of a well-formed map, oldest first\<close>

text \<open>
  A cell names one entry: the handle of its list element, the address of its \<open>Pair\<close>,
  its key and its value.
\<close>

datatype ('k, 'v) cell = Cell (hnd: handle) (ptr: pref) (key: 'k) (val: 'v)

text \<open>
  \<open>dseg ns pv a cs z nx\<close>: in the element store \<open>ns\<close>, the elements of the cells \<open>cs\<close>
  are linked in both directions; \<open>a\<close> is the handle of the first element (\<open>nx\<close> if there
  is none), \<open>z\<close> the handle of the last (\<open>pv\<close> if there is none), the first element's
  back link is \<open>pv\<close> and the last element's forward link is \<open>nx\<close>.
\<close>

fun dseg :: "(handle \<rightharpoonup> Element) \<Rightarrow> handle option \<Rightarrow> handle option \<Rightarrow> ('k, 'v) cell list
    \<Rightarrow> handle option \<Rightarrow> handle option \<Rightarrow> bool" where
  "dseg ns pv a [] z nx = (a = nx \<and> z = pv)"
| "dseg ns pv a (c # cs) z nx =
     (a = Some (hnd c) \<and>
      (case ns (hnd c) of
         None \<Rightarrow> False
       | Some e \<Rightarrow> payload e = ptr c \<and> prev_link e = pv \<and>
                   dseg ns (Some (hnd c)) (next_link e) cs z nx))"

text \<open>
  \<open>abstracts om cs\<close>: the list of \<open>om\<close> links exactly the elements of \<open>cs\<close> in this
  order, every element carries the address of its \<open>Pair\<close>, every \<open>Pair\<close> holds its key,
  its value and its element, and the index maps exactly the keys of \<open>cs\<close> to their
  \<open>Pair\<close>s.
\<close>

definition abstracts :: "('k, 'v) OrderedMap \<Rightarrow> ('k, 'v) cell list \<Rightarrow> bool" where
  "abstracts om cs \<longleftrightarrow>
     dseg (nodes (list_om om)) None (head (list_om om)) cs (tail (list_om om)) None
   \<and> count (list_om om) = length cs
   \<and> distinct (map hnd cs) \<and> distinct (map key cs)
   \<and> (\<forall>c \<in> set cs. hnd c < fresh (list_om om) \<and> ptr c < store_next om
          \<and> store om (ptr c) = Some \<lparr>Key = key c, Value = val c, element = Some (hnd c)\<rparr>
          \<and> pairs om (key c) = Some (ptr c))
   \<and> dom (pairs om) = key ` set cs
   \<and> (\<forall>p. store_next om \<le> p \<longrightarrow> store om p = None)"

text \<open>The (key, value) pairs of the cells, and the cells after a value is overwritten.\<close>

definition kvs :: "('k, 'v) cell list \<Rightarrow> ('k \<times> 'v) list" where
  "kvs cs = map (\<lambda>c. (key c, val c)) cs"

definition upd_cell :: "'k \<Rightarrow> 'v \<Rightarrow> ('k, 'v) cell \<Rightarrow> ('k, 'v) cell" where
  "upd_cell k v c = (if key c = k then Cell (hnd c) (ptr c) (key c) v else c)"

section \<open>Well-formedness is an invariant\<close>

text \<open>
  Segments: splitting at an append, updates of elements outside the segment, and the
  relinking of the last and the first element.
\<close>

lemma dseg_append:
  "dseg ns pv a (xs @ ys) z nx = (\<exists>m b. dseg ns pv a xs m b \<and> dseg ns m b ys z nx)"
  by (induction xs arbitrary: pv a) (auto split: option.splits)

lemma dseg_upd_other:
  "h \<notin> hnd ` set cs \<Longrightarrow> dseg (ns(h := x)) pv a cs z nx = dseg ns pv a cs z nx"
  by (induction cs arbitrary: pv a) (auto split: option.splits)

lemma dseg_set_next_other:
  "h \<notin> hnd ` set cs \<Longrightarrow> dseg (set_next ns h x) pv a cs z nx = dseg ns pv a cs z nx"
  by (simp add: set_next_def dseg_upd_other split: option.splits)

lemma dseg_set_prev_other:
  "h \<notin> hnd ` set cs \<Longrightarrow> dseg (set_prev ns h x) pv a cs z nx = dseg ns pv a cs z nx"
  by (simp add: set_prev_def dseg_upd_other split: option.splits)

lemma dseg_last:
  "dseg ns pv a cs z nx \<Longrightarrow> z = (if cs = [] then pv else Some (hnd (last cs)))"
  by (induction cs arbitrary: pv a) (auto split: option.splits)

lemma dseg_first:
  "dseg ns pv a cs z nx \<Longrightarrow> a = (if cs = [] then nx else Some (hnd (hd cs)))"
  by (cases cs) auto

lemma dseg_snoc:
  "dseg ns pv a (cs @ [c]) z nx =
     (\<exists>m. dseg ns pv a cs m (Some (hnd c)) \<and> z = Some (hnd c) \<and>
       (\<exists>e. ns (hnd c) = Some e \<and> payload e = ptr c \<and> prev_link e = m \<and> next_link e = nx))"
  by (auto simp: dseg_append split: option.splits)

lemma dseg_set_next_last:
  assumes "dseg ns pv a (cs @ [c]) z nx" and "hnd c \<notin> hnd ` set cs"
  shows "dseg (set_next ns (hnd c) nx') pv a (cs @ [c]) z nx'"
  using assms by (auto simp: dseg_snoc dseg_set_next_other) (auto simp: set_next_def)

lemma dseg_set_prev_first:
  assumes "dseg ns pv a (c # cs) z nx" and "hnd c \<notin> hnd ` set cs"
  shows "dseg (set_prev ns (hnd c) pv') pv' a (c # cs) z nx"
  using assms by (auto simp: set_prev_def dseg_upd_other split: option.splits)


text \<open>The list operations on a well-formed list, and the map operations on a well-formed map.\<close>

lemma abstracts_New: "abstracts New []"
  by (simp add: abstracts_def New_def list_New_def)

lemma PushBack_dseg:
  assumes "dseg (nodes l) None (head l) cs (tail l) None"
    and "distinct (map hnd cs)" and "\<forall>c \<in> set cs. hnd c < fresh l"
  shows "\<exists>l'. PushBack l p = (fresh l, l') \<and>
           dseg (nodes l') None (head l') (cs @ [Cell (fresh l) p k v]) (tail l') None \<and>
           count l' = Suc (count l) \<and> fresh l' = Suc (fresh l)"
proof (cases cs rule: rev_cases)
  case Nil
  with assms show ?thesis by (simp add: PushBack_def Let_def)
next
  case (snoc cs0 c0)
  from assms(1) snoc have t: "tail l = Some (hnd c0)"
    by (auto simp: dseg_snoc)
  from assms(2) snoc have d: "hnd c0 \<notin> hnd ` set cs0" by auto
  from assms(3) snoc have f: "fresh l \<notin> hnd ` set (cs0 @ [c0])" by auto
  define ns' where "ns' = (set_next (nodes l) (hnd c0) (Some (fresh l)))(fresh l \<mapsto>
      \<lparr>payload = p, next_link = None, prev_link = tail l\<rparr>)"
  have "dseg (set_next (nodes l) (hnd c0) (Some (fresh l))) None (head l) (cs0 @ [c0]) (tail l) (Some (fresh l))"
    using dseg_set_next_last [OF assms(1) [unfolded snoc] d] .
  then have X: "dseg ns' None (head l) cs (tail l) (Some (fresh l))"
    unfolding ns'_def snoc by (simp only: dseg_upd_other [OF f])
  have Y: "dseg ns' (tail l) (Some (fresh l)) [Cell (fresh l) p k v] (Some (fresh l)) None"
    by (simp add: ns'_def)
  have Z: "dseg ns' None (head l) (cs @ [Cell (fresh l) p k v]) (Some (fresh l)) None"
    unfolding dseg_append using X Y by blast
  have "PushBack l p = (fresh l, l\<lparr>nodes := ns', head := head l, tail := Some (fresh l),
      count := count l + 1, fresh := Suc (fresh l)\<rparr>)"
    by (simp add: PushBack_def Let_def t ns'_def)
  then show ?thesis using Z by simp
qed

lemma Remove_dseg:
  assumes "dseg (nodes l) None (head l) (as @ c # bs) (tail l) None"
    and "distinct (map hnd (as @ c # bs))"
  shows "\<exists>l'. Remove l (hnd c) = Inr l' \<and>
           dseg (nodes l') None (head l') (as @ bs) (tail l') None \<and>
           count l' = count l - 1 \<and> fresh l' = fresh l"
proof -
  from assms(1) obtain m e where
    A: "dseg (nodes l) None (head l) as m (Some (hnd c))" and
    e: "nodes l (hnd c) = Some e" "payload e = ptr c" "prev_link e = m" and
    B: "dseg (nodes l) (Some (hnd c)) (next_link e) bs (tail l) None"
    by (auto simp: dseg_append split: option.splits)
  define ns1 where "ns1 = (case prev_link e of None \<Rightarrow> nodes l
                      | Some p \<Rightarrow> set_next (nodes l) p (next_link e))"
  define ns2 where "ns2 = (case next_link e of None \<Rightarrow> ns1
                      | Some n \<Rightarrow> set_prev ns1 n (prev_link e))"
  define hd' where "hd' = (case prev_link e of None \<Rightarrow> next_link e | Some p \<Rightarrow> head l)"
  define tl' where "tl' = (case next_link e of None \<Rightarrow> prev_link e | Some n \<Rightarrow> tail l)"
  have R: "Remove l (hnd c) = Inr (l\<lparr>nodes := ns2(hnd c := None), head := hd', tail := tl', count := count l - 1\<rparr>)"
    unfolding Remove_def Let_def ns2_def ns1_def hd'_def tl'_def by (simp add: e(1))
  have cA: "hnd c \<notin> hnd ` set as" and cB: "hnd c \<notin> hnd ` set bs"
    and dA: "distinct (map hnd as)" and dB: "distinct (map hnd bs)"
    and AB: "hnd ` set as \<inter> hnd ` set bs = {}"
    using assms(2) by auto
  have mA: "m = (if as = [] then None else Some (hnd (last as)))"
    using dseg_last [OF A] .
  have nB: "next_link e = (if bs = [] then None else Some (hnd (hd bs)))"
    using dseg_first [OF B] .
  have tB: "tail l = (if bs = [] then Some (hnd c) else Some (hnd (last bs)))"
    using dseg_last [OF B] .
  have hA: "head l = (if as = [] then Some (hnd c) else Some (hnd (hd as)))"
    using dseg_first [OF A] .
  have A1: "dseg ns1 None hd' as m (next_link e)"
  proof (cases as rule: rev_cases)
    case Nil
    with A mA e show ?thesis by (simp add: ns1_def hd'_def)
  next
    case (snoc as0 a0)
    then have "hnd a0 \<notin> hnd ` set as0" using dA by auto
    from dseg_set_next_last [OF A [unfolded snoc] this, of "next_link e"]
    show ?thesis using snoc mA e by (simp add: ns1_def hd'_def)
  qed
  have A2: "dseg ns2 None hd' as m (next_link e)"
  proof (cases bs)
    case Nil
    with A1 nB show ?thesis by (simp add: ns2_def)
  next
    case (Cons b0 bs0)
    then have "hnd b0 \<notin> hnd ` set as" using AB by auto
    then show ?thesis using A1 nB Cons by (simp add: ns2_def dseg_set_prev_other)
  qed
  have B1: "dseg ns1 (Some (hnd c)) (next_link e) bs (tail l) None"
  proof (cases as rule: rev_cases)
    case Nil
    with B mA e show ?thesis by (simp add: ns1_def)
  next
    case (snoc as0 a0)
    then have "hnd a0 \<notin> hnd ` set bs" using AB by auto
    then show ?thesis using B mA e snoc by (simp add: ns1_def dseg_set_next_other)
  qed
  have B2: "dseg ns2 m (next_link e) bs tl' None"
  proof (cases bs)
    case Nil
    with B1 nB e show ?thesis by (simp add: ns2_def tl'_def)
  next
    case (Cons b0 bs0)
    then have "hnd b0 \<notin> hnd ` set bs0" using dB by auto
    from dseg_set_prev_first [OF B1 [unfolded Cons] this, of m]
    show ?thesis using Cons nB e by (simp add: ns2_def tl'_def)
  qed
  have "dseg (ns2(hnd c := None)) None hd' (as @ bs) tl' None"
    unfolding dseg_append using A2 B2 cA cB by (auto simp: dseg_upd_other)
  then show ?thesis by (simp add: R)
qed


lemma upd_cell_sel [simp]:
  "hnd (upd_cell k v c) = hnd c" "ptr (upd_cell k v c) = ptr c" "key (upd_cell k v c) = key c"
  "val (upd_cell k v c) = (if key c = k then v else val c)"
  by (simp_all add: upd_cell_def)

lemma dseg_upd_cell: "dseg ns pv a (map (upd_cell k v) cs) z nx = dseg ns pv a cs z nx"
  by (induction cs arbitrary: pv a) (auto split: option.splits)

lemma abstracts_cell:
  assumes "abstracts om cs" and "c \<in> set cs"
  shows "pairs om (key c) = Some (ptr c)"
    and "store om (ptr c) = Some \<lparr>Key = key c, Value = val c, element = Some (hnd c)\<rparr>"
    and "hnd c < fresh (list_om om)" and "ptr c < store_next om"
  using assms by (auto simp: abstracts_def)

lemma abstracts_absent:
  assumes "abstracts om cs" and "k \<notin> key ` set cs"
  shows "pairs om k = None"
proof -
  from assms have "k \<notin> dom (pairs om)" by (simp add: abstracts_def)
  then show ?thesis by auto
qed

lemma abstracts_dom: "abstracts om cs \<Longrightarrow> dom (pairs om) = key ` set cs"
  by (simp add: abstracts_def)

lemma abstracts_key_inj:
  assumes "abstracts om cs" and "c \<in> set cs" and "c' \<in> set cs" and "key c = key c'"
  shows "c = c'"
proof -
  from assms(1) have "distinct (map key cs)" by (simp add: abstracts_def)
  then have "inj_on key (set cs)" by (simp add: distinct_map)
  with assms(2-4) show ?thesis by (auto dest: inj_onD)
qed

lemma Set_present:
  assumes "abstracts om cs" and "c \<in> set cs"
  shows "\<exists>om'. Set empty_v om (key c) v = Inr ((val c, True), om') \<and>
           abstracts om' (map (upd_cell (key c) v) cs)"
proof -
  let ?om' = "om\<lparr>store := (store om)(ptr c \<mapsto>
      \<lparr>Key = key c, Value = val c, element = Some (hnd c)\<rparr>\<lparr>Value := v\<rparr>)\<rparr>"
  have S: "Set empty_v om (key c) v = Inr ((val c, True), ?om')"
    using abstracts_cell(1,2) [OF assms] by (simp add: Set_def)
  have st: "store ?om' (ptr c') =
      Some \<lparr>Key = key c', Value = (if key c' = key c then v else val c'), element = Some (hnd c')\<rparr>"
    if "c' \<in> set cs" for c'
  proof (cases "ptr c' = ptr c")
    case True
    with abstracts_cell(2) [OF assms] abstracts_cell(2) [OF assms(1) that]
    show ?thesis by simp
  next
    case False
    then have "key c' \<noteq> key c" using abstracts_key_inj [OF assms(1) that assms(2)] by auto
    with False abstracts_cell(2) [OF assms(1) that] show ?thesis by simp
  qed
  have "abstracts ?om' (map (upd_cell (key c) v) cs)"
    unfolding abstracts_def
  proof (intro conjI ballI)
    fix d assume "d \<in> set (map (upd_cell (key c) v) cs)"
    then obtain c' where c': "c' \<in> set cs" and d: "d = upd_cell (key c) v c'" by auto
    show "store ?om' (ptr d) = Some \<lparr>Key = key d, Value = val d, element = Some (hnd d)\<rparr>"
      using st [OF c'] by (simp add: d)
    show "hnd d < fresh (list_om ?om')" "ptr d < store_next ?om'" "pairs ?om' (key d) = Some (ptr d)"
      using abstracts_cell [OF assms(1) c'] by (simp_all add: d)
  next
    show "\<forall>p. store_next ?om' \<le> p \<longrightarrow> store ?om' p = None"
      using assms(1) abstracts_cell(4) [OF assms] by (auto simp: abstracts_def)
  qed (use assms(1) in \<open>simp_all add: abstracts_def dseg_upd_cell comp_def image_image\<close>)
  with S show ?thesis by blast
qed

lemma Set_absent:
  assumes "abstracts om cs" and "k \<notin> key ` set cs"
  shows "\<exists>om'. Set empty_v om k v = Inr ((empty_v, False), om') \<and>
           abstracts om' (cs @ [Cell (fresh (list_om om)) (store_next om) k v])"
proof -
  let ?c = "Cell (fresh (list_om om)) (store_next om) k v"
  from assms(1) have D: "dseg (nodes (list_om om)) None (head (list_om om)) cs (tail (list_om om)) None"
    and dh: "distinct (map hnd cs)" and fr: "\<forall>c \<in> set cs. hnd c < fresh (list_om om)"
    by (simp_all add: abstracts_def)
  from PushBack_dseg [OF D dh fr, of "store_next om" k v] obtain l' where
    P: "PushBack (list_om om) (store_next om) = (fresh (list_om om), l')" and
    D': "dseg (nodes l') None (head l') (cs @ [?c]) (tail l') None" and
    cnt: "count l' = Suc (count (list_om om))" and fr': "fresh l' = Suc (fresh (list_om om))"
    by blast
  let ?om' = "om\<lparr>pairs := (pairs om)(k \<mapsto> store_next om), list_om := l',
      store := (store om)(store_next om \<mapsto> \<lparr>Key = k, Value = v, element = Some (fresh (list_om om))\<rparr>),
      store_next := Suc (store_next om)\<rparr>"
  have S: "Set empty_v om k v = Inr ((empty_v, False), ?om')"
    using abstracts_absent [OF assms] P by (simp add: Set_def Let_def)
  have "abstracts ?om' (cs @ [?c])"
    unfolding abstracts_def
  proof (intro conjI ballI)
    fix d assume "d \<in> set (cs @ [?c])"
    then have "d \<in> set cs \<or> d = ?c" by auto
    then have "store ?om' (ptr d) = Some \<lparr>Key = key d, Value = val d, element = Some (hnd d)\<rparr>
      \<and> hnd d < fresh (list_om ?om') \<and> ptr d < store_next ?om'
      \<and> pairs ?om' (key d) = Some (ptr d)"
    proof
      assume 1: "d \<in> set cs"
      then have "key d \<noteq> k" using assms(2) by auto
      with abstracts_cell [OF assms(1) 1] show ?thesis by (simp add: fr')
    next
      assume "d = ?c"
      then show ?thesis by (simp add: fr')
    qed
    then show "store ?om' (ptr d) = Some \<lparr>Key = key d, Value = val d, element = Some (hnd d)\<rparr>"
      and "hnd d < fresh (list_om ?om')" and "ptr d < store_next ?om'"
      and "pairs ?om' (key d) = Some (ptr d)"
      by blast+
  next
    show "distinct (map hnd (cs @ [?c]))" using dh fr by auto
    show "distinct (map key (cs @ [?c]))" using assms by (auto simp: abstracts_def)
    show "dom (pairs ?om') = key ` set (cs @ [?c])" using assms(1) by (auto simp: abstracts_def)
  qed (use D' cnt assms(1) in \<open>simp_all add: abstracts_def\<close>)
  with S show ?thesis by blast
qed

lemma Delete_present:
  assumes "abstracts om cs" and "c \<in> set cs"
  shows "\<exists>om'. Delete empty_v om (key c) = Inr ((val c, True), om') \<and>
           abstracts om' (filter (\<lambda>c'. key c' \<noteq> key c) cs)"
proof -
  from assms(2) obtain as bs where cs: "cs = as @ c # bs" by (auto dest: split_list)
  from assms(1) have D: "dseg (nodes (list_om om)) None (head (list_om om)) (as @ c # bs) (tail (list_om om)) None"
    and dh: "distinct (map hnd (as @ c # bs))" and dk: "distinct (map key (as @ c # bs))"
    by (simp_all add: abstracts_def cs)
  from dk have ne: "\<forall>x \<in> set as \<union> set bs. key x \<noteq> key c"
    by (auto simp: image_iff)
  then have "filter (\<lambda>c'. key c' \<noteq> key c) as = as"
    and "filter (\<lambda>c'. key c' \<noteq> key c) bs = bs"
    by simp_all
  then have flt: "filter (\<lambda>c'. key c' \<noteq> key c) cs = as @ bs"
    unfolding cs by simp
  from Remove_dseg [OF D dh] obtain l' where
    R: "Remove (list_om om) (hnd c) = Inr l'" and
    D': "dseg (nodes l') None (head l') (as @ bs) (tail l') None" and
    cnt: "count l' = count (list_om om) - 1" and fr': "fresh l' = fresh (list_om om)"
    by blast
  let ?om' = "om\<lparr>list_om := l', pairs := (pairs om)(key c := None)\<rparr>"
  have S: "Delete empty_v om (key c) = Inr ((val c, True), ?om')"
    using abstracts_cell(1,2) [OF assms] R by (simp add: Delete_def)
  have "abstracts ?om' (as @ bs)"
    unfolding abstracts_def
  proof (intro conjI ballI)
    fix d assume d: "d \<in> set (as @ bs)"
    then have d': "d \<in> set cs" by (auto simp: cs)
    from d ne have "key d \<noteq> key c" by auto
    with abstracts_cell [OF assms(1) d']
    show "store ?om' (ptr d) = Some \<lparr>Key = key d, Value = val d, element = Some (hnd d)\<rparr>"
      and "hnd d < fresh (list_om ?om')" and "ptr d < store_next ?om'"
      and "pairs ?om' (key d) = Some (ptr d)"
      by (simp_all add: fr')
  next
    show "distinct (map hnd (as @ bs))" using dh by auto
    show "distinct (map key (as @ bs))" using dk by auto
    show "dom (pairs ?om') = key ` set (as @ bs)"
      using abstracts_dom [OF assms(1)] ne by (auto simp: cs)
    show "count (list_om ?om') = length (as @ bs)"
      using assms(1) cnt by (simp add: abstracts_def cs)
  qed (use D' assms(1) in \<open>simp_all add: abstracts_def\<close>)
  with S flt show ?thesis by auto
qed

lemma Delete_absent:
  assumes "abstracts om cs" and "k \<notin> key ` set cs"
  shows "Delete empty_v om k = Inr ((empty_v, False), om)"
  using abstracts_absent [OF assms] by (simp add: Delete_def)


text \<open>What the reading operations and the traversal loops return on a well-formed map.\<close>

lemma Len_abs: "abstracts om cs \<Longrightarrow> Len om = length cs"
proof -
  assume a: "abstracts om cs"
  then have "distinct (map key cs)" by (simp add: abstracts_def)
  then have "card (set (map key cs)) = length (map key cs)" by (rule distinct_card)
  then show ?thesis using abstracts_dom [OF a] by (simp add: Len_def)
qed

lemma list_Len_abs: "abstracts om cs \<Longrightarrow> list_Len (list_om om) = length cs"
  by (simp add: abstracts_def list_Len_def)

lemma map_of_kvs:
  assumes "abstracts om cs" and "c \<in> set cs"
  shows "map_of (kvs cs) (key c) = Some (val c)"
proof -
  from assms(1) have "distinct (map fst (kvs cs))" by (simp add: abstracts_def kvs_def comp_def)
  moreover from assms(2) have "(key c, val c) \<in> set (kvs cs)" by (auto simp: kvs_def)
  ultimately show ?thesis by simp
qed

lemma map_of_kvs_None: "k \<notin> key ` set cs \<Longrightarrow> map_of (kvs cs) k = None"
  by (simp add: map_of_eq_None_iff kvs_def image_image)

lemma Get_abs:
  assumes "abstracts om cs"
  shows "Get empty_v om k =
     Inr ((case map_of (kvs cs) k of None \<Rightarrow> (empty_v, False) | Some v \<Rightarrow> (v, True)), om)"
proof (cases "k \<in> key ` set cs")
  case True
  then obtain c where c: "c \<in> set cs" "k = key c" by auto
  with abstracts_cell(1,2) [OF assms c(1)] map_of_kvs [OF assms c(1)]
  show ?thesis by (simp add: Get_def)
next
  case False
  with abstracts_absent [OF assms False] map_of_kvs_None [OF False]
  show ?thesis by (simp add: Get_def)
qed

lemma dseg_node:
  assumes "dseg ns pv a (as @ c # bs) z nx"
  shows "\<exists>e. ns (hnd c) = Some e \<and> payload e = ptr c
     \<and> prev_link e = (if as = [] then pv else Some (hnd (last as)))
     \<and> next_link e = (if bs = [] then nx else Some (hnd (hd bs)))"
proof -
  from assms obtain m e where
    A: "dseg ns pv a as m (Some (hnd c))" and
    e: "ns (hnd c) = Some e" "payload e = ptr c" "prev_link e = m" and
    B: "dseg ns (Some (hnd c)) (next_link e) bs z nx"
    by (auto simp: dseg_append split: option.splits)
  from dseg_last [OF A] dseg_first [OF B] e show ?thesis by simp
qed

lemma abstracts_node:
  assumes "abstracts om (as @ c # bs)"
  shows "\<exists>e. nodes (list_om om) (hnd c) = Some e \<and> payload e = ptr c
     \<and> prev_link e = (if as = [] then None else Some (hnd (last as)))
     \<and> next_link e = (if bs = [] then None else Some (hnd (hd bs)))"
proof -
  from assms have "dseg (nodes (list_om om)) None (head (list_om om)) (as @ c # bs)
      (tail (list_om om)) None"
    by (simp add: abstracts_def)
  from dseg_node [OF this] show ?thesis by simp
qed

lemma listElementToPair_abs:
  assumes "abstracts om cs" and "c \<in> set cs"
  shows "listElementToPair om (Some (hnd c)) = Inr (Some (ptr c))"
proof -
  from assms(2) obtain as bs where "cs = as @ c # bs" by (auto dest: split_list)
  with abstracts_node assms(1) obtain e where "nodes (list_om om) (hnd c) = Some e" "payload e = ptr c"
    by blast
  then show ?thesis by (simp add: listElementToPair_def)
qed

lemma Oldest_abs:
  assumes "abstracts om cs"
  shows "Oldest om = Inr (if cs = [] then None else Some (ptr (hd cs)))"
proof (cases cs)
  case Nil
  with assms show ?thesis by (simp add: abstracts_def Oldest_def Front_def listElementToPair_def)
next
  case (Cons c cs')
  with assms have "head (list_om om) = Some (hnd c)" by (simp add: abstracts_def)
  with listElementToPair_abs [OF assms, of c] Cons show ?thesis
    by (simp add: Oldest_def Front_def)
qed

lemma Newest_abs:
  assumes "abstracts om cs"
  shows "Newest om = Inr (if cs = [] then None else Some (ptr (last cs)))"
proof (cases cs rule: rev_cases)
  case Nil
  with assms show ?thesis by (simp add: abstracts_def Newest_def Back_def listElementToPair_def)
next
  case (snoc cs' c)
  with assms have "tail (list_om om) = Some (hnd c)" by (auto simp: abstracts_def dseg_snoc)
  with listElementToPair_abs [OF assms, of c] snoc show ?thesis
    by (simp add: Newest_def Back_def)
qed

lemma Next_abs:
  assumes "abstracts om (as @ c # bs)"
  shows "Next om (ptr c) = Inr (if bs = [] then None else Some (ptr (hd bs)))"
proof -
  have c: "c \<in> set (as @ c # bs)" by simp
  from abstracts_node [OF assms] obtain e where
    e: "nodes (list_om om) (hnd c) = Some e"
       "next_link e = (if bs = [] then None else Some (hnd (hd bs)))" by blast
  have N: "Next om (ptr c) = listElementToPair om (next_link e)"
    using abstracts_cell(2) [OF assms c] e(1) by (simp add: Next_def list_Next_def)
  show ?thesis
  proof (cases bs)
    case Nil
    with N e(2) show ?thesis by (simp add: listElementToPair_def)
  next
    case (Cons b bs')
    then have "b \<in> set (as @ c # bs)" by simp
    from listElementToPair_abs [OF assms this] N e(2) Cons show ?thesis by simp
  qed
qed

lemma Prev_abs:
  assumes "abstracts om (as @ c # bs)"
  shows "Prev om (ptr c) = Inr (if as = [] then None else Some (ptr (last as)))"
proof -
  have c: "c \<in> set (as @ c # bs)" by simp
  from abstracts_node [OF assms] obtain e where
    e: "nodes (list_om om) (hnd c) = Some e"
       "prev_link e = (if as = [] then None else Some (hnd (last as)))" by blast
  have N: "Prev om (ptr c) = listElementToPair om (prev_link e)"
    using abstracts_cell(2) [OF assms c] e(1) by (simp add: Prev_def list_Prev_def)
  show ?thesis
  proof (cases as rule: rev_cases)
    case Nil
    with N e(2) show ?thesis by (simp add: listElementToPair_def)
  next
    case (snoc as' a)
    then have "a \<in> set (as @ c # bs)" by simp
    from listElementToPair_abs [OF assms this] N e(2) snoc show ?thesis by simp
  qed
qed

lemma iterate_next_abs:
  assumes "abstracts om (as @ bs)" and "length bs \<le> fuel"
  shows "iterate_next fuel om (if bs = [] then None else Some (ptr (hd bs))) = Inr (kvs bs)"
  using assms
proof (induction bs arbitrary: as fuel)
  case Nil
  then show ?case by (simp add: kvs_def)
next
  case (Cons b bs)
  from Cons.prems(2) obtain fuel' where fuel: "fuel = Suc fuel'" "length bs \<le> fuel'"
    by (cases fuel) auto
  have b: "b \<in> set (as @ b # bs)" by simp
  from Cons.prems(1) have "abstracts om ((as @ [b]) @ bs)" by simp
  from Cons.IH [OF this fuel(2)] Next_abs [OF Cons.prems(1)] abstracts_cell(2) [OF Cons.prems(1) b]
  show ?case by (simp add: fuel kvs_def)
qed

lemma iterate_prev_abs:
  assumes "abstracts om (as @ bs)" and "length as \<le> fuel"
  shows "iterate_prev fuel om (if as = [] then None else Some (ptr (last as))) = Inr (rev (kvs as))"
  using assms
proof (induction as arbitrary: bs fuel rule: rev_induct)
  case Nil
  then show ?case by (simp add: kvs_def)
next
  case (snoc a as)
  from snoc.prems(2) obtain fuel' where fuel: "fuel = Suc fuel'" "length as \<le> fuel'"
    by (cases fuel) auto
  from snoc.prems(1) have A: "abstracts om (as @ a # bs)" by simp
  have a: "a \<in> set (as @ a # bs)" by simp
  from snoc.IH [OF A fuel(2)] Prev_abs [OF A] abstracts_cell(2) [OF A a]
  show ?case by (simp add: fuel kvs_def)
qed

lemma forward_abs:
  assumes "abstracts om cs" and "length cs \<le> fuel"
  shows "forward fuel om = Inr (kvs cs)"
  using iterate_next_abs [of om "[]" cs fuel] Oldest_abs [OF assms(1)] assms
  by (simp add: forward_def)

lemma backward_abs:
  assumes "abstracts om cs" and "length cs \<le> fuel"
  shows "backward fuel om = Inr (rev (kvs cs))"
  using iterate_prev_abs [of om cs "[]" fuel] Newest_abs [OF assms(1)] assms
  by (simp add: backward_def)

section \<open>The map refines the specification's association\<close>

lemma kvs_simps [simp]:
  "kvs [] = []" "kvs (c # cs) = (key c, val c) # kvs cs" "kvs (as @ bs) = kvs as @ kvs bs"
  by (simp_all add: kvs_def)

lemma length_kvs [simp]: "length (kvs cs) = length cs"
  by (simp add: kvs_def)

lemma map_fst_kvs [simp]: "map fst (kvs cs) = map key cs"
  by (simp add: kvs_def comp_def)

lemma kvs_upd_cell:
  "kvs (map (upd_cell k v) cs) = map (\<lambda>(k', v'). if k' = k then (k', v) else (k', v')) (kvs cs)"
  by (induction cs) auto

lemma kvs_filter:
  "kvs (filter (\<lambda>c. key c \<noteq> k) cs) = filter (\<lambda>(k', v'). k' \<noteq> k) (kvs cs)"
  by (induction cs) auto

lemma map_of_kvs_upd_if:
  "map_of (kvs (map (upd_cell k v) cs)) =
     (if k \<in> key ` set cs then (map_of (kvs cs))(k \<mapsto> v) else map_of (kvs cs))"
  by (induction cs) (auto simp: fun_upd_twist)

lemma map_of_kvs_upd:
  "k \<in> key ` set cs \<Longrightarrow> map_of (kvs (map (upd_cell k v) cs)) = (map_of (kvs cs))(k \<mapsto> v)"
  by (simp add: map_of_kvs_upd_if)

lemma map_of_kvs_snoc:
  "k \<notin> key ` set cs \<Longrightarrow> map_of (kvs (cs @ [Cell h p k v])) = (map_of (kvs cs))(k \<mapsto> v)"
  by (induction cs) (auto simp: fun_upd_twist)

lemma map_of_kvs_filter:
  "map_of (kvs (filter (\<lambda>c. key c \<noteq> k) cs)) = (map_of (kvs cs))(k := None)"
  by (induction cs) (auto simp: fun_upd_twist)

lemma apply_op_refines:
  assumes "abstracts om cs"
  shows "\<exists>om' cs'. apply_op empty_v om x = Inr om' \<and> abstracts om' cs' \<and>
           map_of (kvs cs') = spec_apply (map_of (kvs cs)) x"
proof (cases x)
  case (SetOp k v)
  show ?thesis
  proof (cases "k \<in> key ` set cs")
    case True
    then obtain c where c: "c \<in> set cs" "k = key c" by auto
    from Set_present [OF assms c(1), of empty_v v] map_of_kvs_upd [OF True, of v] SetOp c(2)
    show ?thesis by auto
  next
    case False
    from Set_absent [OF assms False, of empty_v v] obtain om' where
      "Set empty_v om k v = Inr ((empty_v, False), om')"
      "abstracts om' (cs @ [Cell (fresh (list_om om)) (store_next om) k v])" by blast
    with map_of_kvs_snoc [OF False] SetOp show ?thesis by fastforce
  qed
next
  case (DeleteOp k)
  show ?thesis
  proof (cases "k \<in> key ` set cs")
    case True
    then obtain c where c: "c \<in> set cs" "k = key c" by auto
    from Delete_present [OF assms c(1), of empty_v] map_of_kvs_filter [of k cs] DeleteOp c(2)
    show ?thesis by auto
  next
    case False
    then have "(map_of (kvs cs))(k := None) = map_of (kvs cs)"
      using map_of_kvs_None [OF False] by auto
    with Delete_absent [OF assms False, of empty_v] assms DeleteOp show ?thesis by auto
  qed
qed

lemma run_refines:
  assumes "abstracts om cs"
  shows "\<exists>om' cs'. run empty_v om ops = Inr om' \<and> abstracts om' cs' \<and>
           map_of (kvs cs') = foldl spec_apply (map_of (kvs cs)) ops"
  using assms
proof (induction ops arbitrary: om cs)
  case Nil
  then show ?case by auto
next
  case (Cons x ops)
  from apply_op_refines [OF Cons.prems, of empty_v x] obtain om1 cs1 where
    1: "apply_op empty_v om x = Inr om1" "abstracts om1 cs1"
       "map_of (kvs cs1) = spec_apply (map_of (kvs cs)) x" by blast
  with Cons.IH [OF 1(2)] show ?case by simp
qed

lemma reachable_refines:
  assumes "run empty_v New ops = Inr om"
  shows "\<exists>cs. abstracts om cs \<and> map_of (kvs cs) = spec_assoc ops"
  using run_refines [OF abstracts_New, of empty_v ops] assms by (auto simp: spec_assoc_def)

lemma reachable_abs:
  assumes "run empty_v New ops = Inr om"
  shows "\<exists>cs. abstracts om cs"
  using reachable_refines [OF assms] by blast

text \<open>No sequence of \<open>Set\<close> and \<open>Delete\<close> calls on a new map fails.\<close>

lemma run_total: "\<exists>om. run empty_v New ops = Inr om"
  using run_refines [OF abstracts_New, of empty_v ops] by blast


text \<open>The definitions that evaluate the operations on a concrete map.\<close>

lemmas eval_defs = New_def list_New_def Set_def Delete_def Get_def PushBack_def Remove_def
  set_next_def set_prev_def Let_def Len_def forward_def backward_def Oldest_def Newest_def
  Next_def Prev_def listElementToPair_def Front_def Back_def list_Next_def list_Prev_def
  GetPair_def list_Len_def eval_nat_numeral

text \<open>What one call of \<open>Set\<close> or \<open>Delete\<close> does to the cells of a well-formed map.\<close>

lemma filter_key_notin: "k \<notin> key ` set cs \<Longrightarrow> filter (\<lambda>c. key c \<noteq> k) cs = cs"
  by (induction cs) auto

lemma Set_abs:
  assumes "abstracts om cs"
  shows "\<exists>r om' cs'. Set empty_v om k v = Inr (r, om') \<and> abstracts om' cs'
     \<and> r = (case map_of (kvs cs) k of None \<Rightarrow> (empty_v, False) | Some old \<Rightarrow> (old, True))
     \<and> kvs cs' = (if k \<in> key ` set cs
                   then map (\<lambda>(k', v'). if k' = k then (k', v) else (k', v')) (kvs cs)
                   else kvs cs @ [(k, v)])
     \<and> map_of (kvs cs') = (map_of (kvs cs))(k \<mapsto> v)"
proof (cases "k \<in> key ` set cs")
  case True
  then obtain c where c: "c \<in> set cs" "key c = k" by auto
  from Set_present [OF assms c(1), of empty_v v] c(2) obtain om' where
    "Set empty_v om k v = Inr ((val c, True), om')" "abstracts om' (map (upd_cell k v) cs)"
    by auto
  with True map_of_kvs [OF assms c(1)] c(2) map_of_kvs_upd [OF True, of v]
    kvs_upd_cell [of k v cs]
  show ?thesis by auto
next
  case False
  from Set_absent [OF assms False, of empty_v v] obtain om' where
    "Set empty_v om k v = Inr ((empty_v, False), om')"
    "abstracts om' (cs @ [Cell (fresh (list_om om)) (store_next om) k v])" by blast
  moreover have "kvs (cs @ [Cell (fresh (list_om om)) (store_next om) k v]) = kvs cs @ [(k, v)]"
    by simp
  ultimately show ?thesis
    using False map_of_kvs_None [OF False] map_of_kvs_snoc [OF False] by fastforce
qed

lemma Delete_abs:
  assumes "abstracts om cs"
  shows "\<exists>r om' cs'. Delete empty_v om k = Inr (r, om') \<and> abstracts om' cs'
     \<and> r = (case map_of (kvs cs) k of None \<Rightarrow> (empty_v, False) | Some old \<Rightarrow> (old, True))
     \<and> kvs cs' = filter (\<lambda>(k', v'). k' \<noteq> k) (kvs cs)
     \<and> map_of (kvs cs') = (map_of (kvs cs))(k := None)
     \<and> k \<notin> key ` set cs'"
proof (cases "k \<in> key ` set cs")
  case True
  then obtain c where c: "c \<in> set cs" "key c = k" by auto
  from Delete_present [OF assms c(1), of empty_v] c(2) obtain om' where
    "Delete empty_v om k = Inr ((val c, True), om')"
    "abstracts om' (filter (\<lambda>c'. key c' \<noteq> k) cs)" by auto
  moreover have "k \<notin> key ` set (filter (\<lambda>c'. key c' \<noteq> k) cs)" by auto
  ultimately show ?thesis
    using map_of_kvs [OF assms c(1)] c(2) kvs_filter [of k cs] map_of_kvs_filter [of k cs]
    by auto
next
  case False
  then have "filter (\<lambda>c'. key c' \<noteq> k) cs = cs" by (rule filter_key_notin)
  with kvs_filter [of k cs] map_of_kvs_filter [of k cs]
  have "kvs cs = filter (\<lambda>(k', v'). k' \<noteq> k) (kvs cs)"
    "map_of (kvs cs) = (map_of (kvs cs))(k := None)" by simp_all
  with Delete_absent [OF assms False, of empty_v] assms False map_of_kvs_None [OF False]
  show ?thesis by auto
qed

lemma length_filter_key:
  assumes "distinct (map key cs)" and "k \<in> key ` set cs"
  shows "Suc (length (filter (\<lambda>c. key c \<noteq> k) cs)) = length cs"
  using assms by (induction cs) (auto simp: filter_key_notin)

lemma position_snoc:
  assumes "k \<notin> set ks"
  shows "position k (ks @ [k]) = length ks"
  using assms by (induction ks) (auto simp: position_def)

lemma Get_true_iff:
  assumes "abstracts om cs"
  shows "(\<exists>v. Get empty_v om k = Inr ((v, True), om)) \<longleftrightarrow> k \<in> dom (pairs om)"
proof (cases "k \<in> key ` set cs")
  case True
  then obtain c where c: "c \<in> set cs" "key c = k" by auto
  from Get_abs [OF assms, of empty_v k] map_of_kvs [OF assms c(1)] c(2) True
    abstracts_dom [OF assms]
  show ?thesis by simp
next
  case False
  from Get_abs [OF assms, of empty_v k] map_of_kvs_None [OF False] False abstracts_dom [OF assms]
  show ?thesis by simp
qed

lemma filter_upd_other:
  "filter (\<lambda>(x, y). x \<noteq> k) (map (\<lambda>(k', v'). if k' = k then (k', v) else (k', v')) es)
     = filter (\<lambda>(x, y). x \<noteq> k) es"
  by (induction es) auto

section \<open>The properties of the specification\<close>

text \<open>
  In every theorem below, \<open>om\<close> is a map reached from \<open>New\<close> by a sequence \<open>ops\<close> of
  \<open>Set\<close> and \<open>Delete\<close> calls, \<open>empty_v\<close> is the zero value of the value type, and
  \<open>fuel\<close> bounds the iterations of a traversal loop.
\<close>

text \<open>
  Claim C1. For every map state and every key already present in the map,
  \<open>Set(key, value)\<close> overwrites the entry's value in place and returns the old value
  together with true, and the key keeps its position in the traversal order: the keys are
  visited in the same order before and after, the entry of the key is the same \<open>Pair\<close>
  object, and only the value of that key has changed.
\<close>

theorem Set_existing_key:
  assumes "run empty_v New ops = Inr om" and "k \<in> dom (pairs om)" and "Len om \<le> fuel"
  shows "\<exists>old om' es es'.
           Get empty_v om k = Inr ((old, True), om)
         \<and> Set empty_v om k v = Inr ((old, True), om')
         \<and> Get empty_v om' k = Inr ((v, True), om')
         \<and> GetPair om' k = GetPair om k
         \<and> Len om' = Len om
         \<and> forward fuel om = Inr es
         \<and> forward fuel om' = Inr es'
         \<and> map fst es' = map fst es
         \<and> es' = map (\<lambda>(k', v'). if k' = k then (k', v) else (k', v')) es"
proof -
  from reachable_abs [OF assms(1)] obtain cs where a: "abstracts om cs" by blast
  from assms(2) abstracts_dom [OF a] obtain c where c: "c \<in> set cs" "key c = k" by auto
  from Set_present [OF a c(1), of empty_v v] c(2) obtain om' where
    S: "Set empty_v om k v = Inr ((val c, True), om')" and
    a': "abstracts om' (map (upd_cell k v) cs)" by auto
  have c': "upd_cell k v c \<in> set (map (upd_cell k v) cs)" using c(1) by simp
  have G: "Get empty_v om k = Inr ((val c, True), om)"
    using Get_abs [OF a, of empty_v k] map_of_kvs [OF a c(1)] c(2) by simp
  have G': "Get empty_v om' k = Inr ((v, True), om')"
    using Get_abs [OF a', of empty_v k] map_of_kvs [OF a' c'] c(2) by simp
  have P: "GetPair om' k = GetPair om k"
    using abstracts_cell(1) [OF a c(1)] abstracts_cell(1) [OF a' c'] c(2)
    by (simp add: GetPair_def)
  have L: "Len om' = Len om"
    using Len_abs [OF a] Len_abs [OF a'] by simp
  from assms(3) Len_abs [OF a] have f: "length cs \<le> fuel" by simp
  then have f': "length (map (upd_cell k v) cs) \<le> fuel" by simp
  have F: "forward fuel om = Inr (kvs cs)" by (rule forward_abs [OF a f])
  have F': "forward fuel om' = Inr (map (\<lambda>(k', v'). if k' = k then (k', v) else (k', v')) (kvs cs))"
    using forward_abs [OF a' f'] by (simp add: kvs_upd_cell)
  have K: "map fst (map (\<lambda>(k', v'). if k' = k then (k', v) else (k', v')) (kvs cs)) = map fst (kvs cs)"
    by (induction cs) auto
  from G S G' P L F F' K show ?thesis by blast
qed

theorem Set_existing_key_witness:
  "\<exists>om. run (0::nat) New [SetOp (1::nat) 10, SetOp 2 20, SetOp 3 30] = Inr om
     \<and> 2 \<in> dom (pairs om) \<and> Len om \<le> 3
     \<and> (\<exists>old om' es es'.
           Get 0 om 2 = Inr ((old, True), om)
         \<and> Set 0 om 2 99 = Inr ((old, True), om')
         \<and> Get 0 om' 2 = Inr ((99, True), om')
         \<and> GetPair om' 2 = GetPair om 2
         \<and> Len om' = Len om
         \<and> forward 3 om = Inr es
         \<and> forward 3 om' = Inr es'
         \<and> map fst es' = map fst es
         \<and> es' = map (\<lambda>(k', v'). if k' = 2 then (k', 99) else (k', v')) es)"
proof -
  have "\<exists>om. run (0::nat) New [SetOp (1::nat) 10, SetOp 2 20, SetOp 3 30] = Inr om
     \<and> 2 \<in> dom (pairs om) \<and> Len om \<le> 3"
    by (simp add: eval_defs)
  then obtain om where h: "run (0::nat) New [SetOp (1::nat) 10, SetOp 2 20, SetOp 3 30] = Inr om"
    "2 \<in> dom (pairs om)" "Len om \<le> 3" by blast
  from Set_existing_key [OF h, of 99] h show ?thesis by blast
qed

text \<open>
  Claim C2. For every map state and every key not present in the map, \<open>Set(key, value)\<close>
  creates a new entry (a \<open>Pair\<close> at an address unused before), appends it at the tail of
  the sequence, so that it is the entry \<open>Newest()\<close> returns and has no successor, inserts
  it into the index, and returns the zero value of the value type together with false.
\<close>

theorem Set_new_key:
  assumes "run empty_v New ops = Inr om" and "k \<notin> dom (pairs om)" and "Len om \<le> fuel"
  shows "\<exists>om' es p pair.
           Set empty_v om k v = Inr ((empty_v, False), om')
         \<and> forward fuel om = Inr es
         \<and> forward (Suc fuel) om' = Inr (es @ [(k, v)])
         \<and> Newest om' = Inr (Some p)
         \<and> Next om' p = Inr None
         \<and> store om p = None
         \<and> store om' p = Some pair \<and> Key pair = k \<and> Value pair = v
         \<and> GetPair om' k = Some p
         \<and> Get empty_v om' k = Inr ((v, True), om')
         \<and> Len om' = Suc (Len om)
         \<and> list_Len (list_om om') = Suc (list_Len (list_om om))"
proof -
  from reachable_abs [OF assms(1)] obtain cs where a: "abstracts om cs" by blast
  from assms(2) abstracts_dom [OF a] have nk: "k \<notin> key ` set cs" by simp
  define c where "c = Cell (fresh (list_om om)) (store_next om) k v"
  from Set_absent [OF a nk, of empty_v v] obtain om' where
    S: "Set empty_v om k v = Inr ((empty_v, False), om')" and
    a': "abstracts om' (cs @ [c])" unfolding c_def by blast
  have c': "c \<in> set (cs @ [c])" by simp
  from assms(3) Len_abs [OF a] have f: "length cs \<le> fuel" by simp
  then have f': "length (cs @ [c]) \<le> Suc fuel" by simp
  have F: "forward fuel om = Inr (kvs cs)" by (rule forward_abs [OF a f])
  have F': "forward (Suc fuel) om' = Inr (kvs cs @ [(k, v)])"
    using forward_abs [OF a' f'] by (simp add: c_def)
  have N: "Newest om' = Inr (Some (store_next om))"
    using Newest_abs [OF a'] by (simp add: c_def)
  have X: "Next om' (store_next om) = Inr None"
    using Next_abs [of om' cs c "[]"] a' by (simp add: c_def)
  have O: "store om (store_next om) = None"
    using a by (simp add: abstracts_def)
  have T: "store om' (store_next om) = Some \<lparr>Key = k, Value = v, element = Some (fresh (list_om om))\<rparr>"
    using abstracts_cell(2) [OF a' c'] by (simp add: c_def)
  have P: "GetPair om' k = Some (store_next om)"
    using abstracts_cell(1) [OF a' c'] by (simp add: GetPair_def c_def)
  have G: "Get empty_v om' k = Inr ((v, True), om')"
    using Get_abs [OF a', of empty_v k] map_of_kvs [OF a' c'] by (simp add: c_def)
  have L: "Len om' = Suc (Len om)"
    using Len_abs [OF a] Len_abs [OF a'] by simp
  have LL: "list_Len (list_om om') = Suc (list_Len (list_om om))"
    using list_Len_abs [OF a] list_Len_abs [OF a'] by simp
  from S F F' N X O T P G L LL show ?thesis by simp
qed

theorem Set_new_key_witness:
  "\<exists>om. run (0::nat) New [SetOp (1::nat) 10, SetOp 2 20] = Inr om
     \<and> 7 \<notin> dom (pairs om) \<and> Len om \<le> 2
     \<and> (\<exists>om' es p pair.
           Set 0 om 7 70 = Inr ((0, False), om')
         \<and> forward 2 om = Inr es
         \<and> forward (Suc 2) om' = Inr (es @ [(7, 70)])
         \<and> Newest om' = Inr (Some p)
         \<and> Next om' p = Inr None
         \<and> store om p = None
         \<and> store om' p = Some pair \<and> Key pair = 7 \<and> Value pair = 70
         \<and> GetPair om' 7 = Some p
         \<and> Get 0 om' 7 = Inr ((70, True), om')
         \<and> Len om' = Suc (Len om)
         \<and> list_Len (list_om om') = Suc (list_Len (list_om om)))"
proof -
  have "\<exists>om. run (0::nat) New [SetOp (1::nat) 10, SetOp 2 20] = Inr om
     \<and> 7 \<notin> dom (pairs om) \<and> Len om \<le> 2"
    by (simp add: eval_defs)
  then obtain om where h: "run (0::nat) New [SetOp (1::nat) 10, SetOp 2 20] = Inr om"
    "7 \<notin> dom (pairs om)" "Len om \<le> 2" by blast
  from Set_new_key [OF h, of 70] h show ?thesis by blast
qed

text \<open>
  Claim C3. For every map state, \<open>Delete(key)\<close> on a present key removes that key's node
  from the sequence and the key from the index and returns its value with true;
  \<open>Delete(key)\<close> on an absent key changes nothing and returns the zero value with false.
  So a second \<open>Delete\<close> of the same key leaves the map as the first one left it and returns
  false.
\<close>

theorem Delete_key:
  assumes "run empty_v New ops = Inr om" and "Len om \<le> fuel"
  shows "(k \<in> dom (pairs om) \<longrightarrow>
           (\<exists>v om' es.
              Get empty_v om k = Inr ((v, True), om)
            \<and> Delete empty_v om k = Inr ((v, True), om')
            \<and> forward fuel om = Inr es
            \<and> forward fuel om' = Inr (filter (\<lambda>(k', v'). k' \<noteq> k) es)
            \<and> k \<notin> dom (pairs om')
            \<and> GetPair om' k = None
            \<and> Len om' = Len om - 1
            \<and> list_Len (list_om om') = list_Len (list_om om) - 1
            \<and> Delete empty_v om' k = Inr ((empty_v, False), om')))
       \<and> (k \<notin> dom (pairs om) \<longrightarrow> Delete empty_v om k = Inr ((empty_v, False), om))"
proof (intro conjI impI)
  from reachable_abs [OF assms(1)] obtain cs where a: "abstracts om cs" by blast
  {
    assume "k \<notin> dom (pairs om)"
    with abstracts_dom [OF a] have "k \<notin> key ` set cs" by simp
    from Delete_absent [OF a this] show "Delete empty_v om k = Inr ((empty_v, False), om)" .
  }
  assume "k \<in> dom (pairs om)"
  with abstracts_dom [OF a] obtain c where c: "c \<in> set cs" "key c = k" by auto
  from Delete_present [OF a c(1), of empty_v] c(2) obtain om' where
    D: "Delete empty_v om k = Inr ((val c, True), om')" and
    a': "abstracts om' (filter (\<lambda>c'. key c' \<noteq> k) cs)" by auto
  have nk: "k \<notin> key ` set (filter (\<lambda>c'. key c' \<noteq> k) cs)" by auto
  have G: "Get empty_v om k = Inr ((val c, True), om)"
    using Get_abs [OF a, of empty_v k] map_of_kvs [OF a c(1)] c(2) by simp
  from assms(2) Len_abs [OF a] have f: "length cs \<le> fuel" by simp
  have f': "length (filter (\<lambda>c'. key c' \<noteq> k) cs) \<le> fuel"
    by (rule le_trans [OF length_filter_le f])
  have F: "forward fuel om = Inr (kvs cs)" by (rule forward_abs [OF a f])
  have F': "forward fuel om' = Inr (filter (\<lambda>(k', v'). k' \<noteq> k) (kvs cs))"
    using forward_abs [OF a' f'] by (simp add: kvs_filter)
  have A: "k \<notin> dom (pairs om')" using abstracts_dom [OF a'] nk by simp
  then have P: "GetPair om' k = None" by (auto simp: GetPair_def)
  from D have "count (list_om om') = count (list_om om) - 1"
    by (auto simp: Delete_def Remove_def Let_def split: option.splits sum.splits)
  then have LL: "list_Len (list_om om') = list_Len (list_om om) - 1"
    by (simp add: list_Len_def)
  with list_Len_abs [OF a] list_Len_abs [OF a'] Len_abs [OF a] Len_abs [OF a']
  have L: "Len om' = Len om - 1" by simp
  have D2: "Delete empty_v om' k = Inr ((empty_v, False), om')"
    by (rule Delete_absent [OF a' nk])
  from G D F F' A P L LL D2
  show "\<exists>v om' es.
              Get empty_v om k = Inr ((v, True), om)
            \<and> Delete empty_v om k = Inr ((v, True), om')
            \<and> forward fuel om = Inr es
            \<and> forward fuel om' = Inr (filter (\<lambda>(k', v'). k' \<noteq> k) es)
            \<and> k \<notin> dom (pairs om')
            \<and> GetPair om' k = None
            \<and> Len om' = Len om - 1
            \<and> list_Len (list_om om') = list_Len (list_om om) - 1
            \<and> Delete empty_v om' k = Inr ((empty_v, False), om')" by blast
qed


theorem Delete_key_witness:
  "\<exists>om. run (0::nat) New [SetOp (1::nat) 10, SetOp 2 20, SetOp 3 30] = Inr om
     \<and> Len om \<le> 3 \<and> 2 \<in> dom (pairs om) \<and> 7 \<notin> dom (pairs om)
     \<and> (\<exists>v om' es.
              Get 0 om 2 = Inr ((v, True), om)
            \<and> Delete 0 om 2 = Inr ((v, True), om')
            \<and> forward 3 om = Inr es
            \<and> forward 3 om' = Inr (filter (\<lambda>(k', v'). k' \<noteq> 2) es)
            \<and> 2 \<notin> dom (pairs om')
            \<and> GetPair om' 2 = None
            \<and> Len om' = Len om - 1
            \<and> list_Len (list_om om') = list_Len (list_om om) - 1
            \<and> Delete 0 om' 2 = Inr ((0, False), om'))
     \<and> Delete 0 om 7 = Inr ((0, False), om)"
proof -
  have "\<exists>om. run (0::nat) New [SetOp (1::nat) 10, SetOp 2 20, SetOp 3 30] = Inr om
     \<and> Len om \<le> 3 \<and> 2 \<in> dom (pairs om) \<and> 7 \<notin> dom (pairs om)"
    by (simp add: eval_defs)
  then obtain om where h: "run (0::nat) New [SetOp (1::nat) 10, SetOp 2 20, SetOp 3 30] = Inr om"
    "Len om \<le> 3" and p: "2 \<in> dom (pairs om)" and q: "7 \<notin> dom (pairs om)" by blast
  from Delete_key [OF h, of 2] Delete_key [OF h, of 7] h p q show ?thesis by blast
qed

text \<open>
  Claim C4. After any sequence of \<open>Set\<close> and \<open>Delete\<close> calls on a new map, \<open>Len()\<close>
  is the number of keys currently present (the keys for which \<open>Get\<close> reports true), is
  the length of the linked sequence, and is the number of pairs visited from \<open>Oldest()\<close>
  by \<open>Next()\<close> and from \<open>Newest()\<close> by \<open>Prev()\<close>; the keys visited are distinct.
\<close>

theorem Len_invariant:
  assumes "run empty_v New ops = Inr om" and "Len om \<le> fuel"
  shows "Len om = card {k. \<exists>v. Get empty_v om k = Inr ((v, True), om)}
       \<and> Len om = list_Len (list_om om)
       \<and> (\<exists>es. forward fuel om = Inr es \<and> length es = Len om \<and> distinct (map fst es))
       \<and> (\<exists>es. backward fuel om = Inr es \<and> length es = Len om)"
proof -
  from reachable_abs [OF assms(1)] obtain cs where a: "abstracts om cs" by blast
  from assms(2) Len_abs [OF a] have f: "length cs \<le> fuel" by simp
  have "{k. \<exists>v. Get empty_v om k = Inr ((v, True), om)} = dom (pairs om)"
    using Get_true_iff [OF a, of empty_v] by blast
  then have 1: "Len om = card {k. \<exists>v. Get empty_v om k = Inr ((v, True), om)}"
    by (simp add: Len_def)
  have 2: "Len om = list_Len (list_om om)"
    using Len_abs [OF a] list_Len_abs [OF a] by simp
  have d: "distinct (map fst (kvs cs))" using a by (simp add: abstracts_def)
  have 3: "\<exists>es. forward fuel om = Inr es \<and> length es = Len om \<and> distinct (map fst es)"
    using forward_abs [OF a f] Len_abs [OF a] d by simp
  have 4: "\<exists>es. backward fuel om = Inr es \<and> length es = Len om"
    using backward_abs [OF a f] Len_abs [OF a] by simp
  from 1 2 3 4 show ?thesis by blast
qed

theorem Len_invariant_witness:
  "\<exists>om. run (0::nat) New [SetOp (1::nat) 10, SetOp 2 20, SetOp 1 11, DeleteOp 2, SetOp 3 30] = Inr om
     \<and> Len om \<le> 4
     \<and> Len om = card {k. \<exists>v. Get 0 om k = Inr ((v, True), om)}
     \<and> Len om = list_Len (list_om om)
     \<and> (\<exists>es. forward 4 om = Inr es \<and> length es = Len om \<and> distinct (map fst es))
     \<and> (\<exists>es. backward 4 om = Inr es \<and> length es = Len om)"
proof -
  have "\<exists>om. run (0::nat) New [SetOp (1::nat) 10, SetOp 2 20, SetOp 1 11, DeleteOp 2, SetOp 3 30] = Inr om
     \<and> Len om \<le> 4"
    by (simp add: eval_defs)
  then obtain om where h: "run (0::nat) New [SetOp (1::nat) 10, SetOp 2 20, SetOp 1 11, DeleteOp 2, SetOp 3 30] = Inr om"
    "Len om \<le> 4" by blast
  from Len_invariant [OF h] h show ?thesis by blast
qed

text \<open>
  Claim C5. For every map state in which key \<open>k\<close> is present, \<open>Delete(k)\<close> followed by
  \<open>Set(k, v)\<close> puts \<open>k\<close> at the newest (tail) position of the traversal order: the
  traversal afterwards is the old one without \<open>k\<close>, followed by \<open>(k, v)\<close>. So the other
  keys keep their relative order, and if \<open>k\<close> was not the last key before, its position
  has changed.
\<close>

theorem Delete_then_Set:
  assumes "run empty_v New ops = Inr om" and "k \<in> dom (pairs om)" and "Len om \<le> fuel"
  shows "\<exists>r om1 om2 es es2 p.
           Delete empty_v om k = Inr (r, om1)
         \<and> Set empty_v om1 k v = Inr ((empty_v, False), om2)
         \<and> forward fuel om = Inr es
         \<and> forward fuel om2 = Inr es2
         \<and> es2 = filter (\<lambda>(k', v'). k' \<noteq> k) es @ [(k, v)]
         \<and> Len om2 = Len om
         \<and> position k (map fst es2) = Len om - 1
         \<and> (position k (map fst es) < Len om - 1 \<longrightarrow>
              position k (map fst es2) \<noteq> position k (map fst es))
         \<and> Newest om2 = Inr (Some p) \<and> GetPair om2 k = Some p"
proof -
  from reachable_abs [OF assms(1)] obtain cs where a: "abstracts om cs" by blast
  from assms(2) abstracts_dom [OF a] have ik: "k \<in> key ` set cs" by simp
  from a have dk: "distinct (map key cs)" by (simp add: abstracts_def)
  from Delete_abs [OF a, of empty_v k] obtain r om1 cs1 where
    D: "Delete empty_v om k = Inr (r, om1)" and a1: "abstracts om1 cs1" and
    k1: "kvs cs1 = filter (\<lambda>(k', v'). k' \<noteq> k) (kvs cs)" and n1: "k \<notin> key ` set cs1"
    by blast
  from Set_abs [OF a1, of empty_v k v] n1 map_of_kvs_None [OF n1] obtain om2 cs2 where
    S: "Set empty_v om1 k v = Inr ((empty_v, False), om2)" and a2: "abstracts om2 cs2" and
    k2: "kvs cs2 = kvs cs1 @ [(k, v)]" by auto
  have "length (kvs cs1) = length (kvs (filter (\<lambda>c. key c \<noteq> k) cs))"
    by (simp only: k1 kvs_filter)
  then have l1: "Suc (length cs1) = length cs"
    using length_filter_key [OF dk ik] by simp
  have "length (kvs cs2) = Suc (length (kvs cs1))" by (simp only: k2) simp
  then have l2: "length cs2 = length cs" using l1 by simp
  from assms(3) Len_abs [OF a] have f: "length cs \<le> fuel" by simp
  with l2 have f2: "length cs2 \<le> fuel" by simp
  have F: "forward fuel om = Inr (kvs cs)" by (rule forward_abs [OF a f])
  have F2: "forward fuel om2 = Inr (filter (\<lambda>(k', v'). k' \<noteq> k) (kvs cs) @ [(k, v)])"
    using forward_abs [OF a2 f2] by (simp add: k2 k1)
  have L: "Len om2 = Len om" using Len_abs [OF a] Len_abs [OF a2] l2 by simp
  have "map fst (kvs cs1) = map key cs1" by simp
  then have m1: "map fst (filter (\<lambda>(k', v'). k' \<noteq> k) (kvs cs)) = map key cs1"
    by (simp only: k1)
  have "k \<notin> set (map key cs1)" using n1 by simp
  from position_snoc [OF this] l1 Len_abs [OF a]
  have P: "position k (map fst (filter (\<lambda>(k', v'). k' \<noteq> k) (kvs cs) @ [(k, v)])) = Len om - 1"
    by (simp add: m1)
  have "cs2 \<noteq> []" using l2 ik by auto
  then have N: "Newest om2 = Inr (Some (ptr (last cs2)))"
    using Newest_abs [OF a2] by simp
  have lk: "key (last cs2) = k"
  proof -
    have "map key cs2 = map fst (kvs cs2)" by simp
    also have "\<dots> = map key cs1 @ [k]" by (simp only: k2) simp
    finally have "last (map key cs2) = k" by simp
    with \<open>cs2 \<noteq> []\<close> show ?thesis by (simp add: last_map)
  qed
  have "last cs2 \<in> set cs2" using \<open>cs2 \<noteq> []\<close> by simp
  from abstracts_cell(1) [OF a2 this] lk
  have G: "GetPair om2 k = Some (ptr (last cs2))" by (simp add: GetPair_def)
  from D S F F2 L P N G show ?thesis by simp
qed

theorem Delete_then_Set_witness:
  "\<exists>om. run (0::nat) New [SetOp (1::nat) 10, SetOp 2 20, SetOp 3 30] = Inr om
     \<and> 1 \<in> dom (pairs om) \<and> Len om \<le> 3
     \<and> (\<exists>es. forward 3 om = Inr es \<and> position 1 (map fst es) < Len om - 1)
     \<and> (\<exists>r om1 om2 es es2 p.
           Delete 0 om 1 = Inr (r, om1)
         \<and> Set 0 om1 1 11 = Inr ((0, False), om2)
         \<and> forward 3 om = Inr es
         \<and> forward 3 om2 = Inr es2
         \<and> es2 = filter (\<lambda>(k', v'). k' \<noteq> 1) es @ [(1, 11)]
         \<and> Len om2 = Len om
         \<and> position 1 (map fst es2) = Len om - 1
         \<and> position 1 (map fst es2) \<noteq> position 1 (map fst es)
         \<and> Newest om2 = Inr (Some p) \<and> GetPair om2 1 = Some p)"
proof -
  have "\<exists>om. run (0::nat) New [SetOp (1::nat) 10, SetOp 2 20, SetOp 3 30] = Inr om
     \<and> 1 \<in> dom (pairs om) \<and> Len om \<le> 3
     \<and> (\<exists>es. forward 3 om = Inr es \<and> position 1 (map fst es) < Len om - 1)"
    by (simp add: eval_defs position_def)
  then obtain om es0 where h: "run (0::nat) New [SetOp (1::nat) 10, SetOp 2 20, SetOp 3 30] = Inr om"
    "1 \<in> dom (pairs om)" "Len om \<le> 3"
    and e: "forward 3 om = Inr es0" "position 1 (map fst es0) < Len om - 1" by blast
  from Delete_then_Set [OF h, of 11] obtain r om1 om2 es es2 p where
    c: "Delete 0 om 1 = Inr (r, om1)" "Set 0 om1 1 11 = Inr ((0, False), om2)"
       "forward 3 om = Inr es" "forward 3 om2 = Inr es2"
       "es2 = filter (\<lambda>(k', v'). k' \<noteq> 1) es @ [(1, 11)]" "Len om2 = Len om"
       "position 1 (map fst es2) = Len om - 1"
       "position 1 (map fst es) < Len om - 1 \<longrightarrow>
              position 1 (map fst es2) \<noteq> position 1 (map fst es)"
       "Newest om2 = Inr (Some p)" "GetPair om2 1 = Some p"
    by blast
  from e c(3) have "es0 = es" by simp
  with e c(8) have "position 1 (map fst es2) \<noteq> position 1 (map fst es)" by simp
  with h e c show ?thesis by blast
qed

text \<open>
  Claim C6. For every map state, the sequence of (key, value) pairs visited from
  \<open>Oldest()\<close> by repeated \<open>Next()\<close> until nil is the exact reverse of the sequence visited
  from \<open>Newest()\<close> by repeated \<open>Prev()\<close> until nil; both loops end within \<open>Len()\<close>
  iterations.
\<close>

theorem traversal_symmetry:
  assumes "run empty_v New ops = Inr om" and "Len om \<le> fuel"
  shows "\<exists>es. forward fuel om = Inr es \<and> backward fuel om = Inr (rev es)"
proof -
  from reachable_abs [OF assms(1)] obtain cs where a: "abstracts om cs" by blast
  from assms(2) Len_abs [OF a] have "length cs \<le> fuel" by simp
  from forward_abs [OF a this] backward_abs [OF a this] show ?thesis by simp
qed

theorem traversal_symmetry_witness:
  "\<exists>om. run (0::nat) New [SetOp (1::nat) 10, SetOp 2 20, DeleteOp 1, SetOp 3 30] = Inr om
     \<and> Len om \<le> 2
     \<and> (\<exists>es. forward 2 om = Inr es \<and> backward 2 om = Inr (rev es))"
proof -
  have "\<exists>om. run (0::nat) New [SetOp (1::nat) 10, SetOp 2 20, DeleteOp 1, SetOp 3 30] = Inr om
     \<and> Len om \<le> 2"
    by (simp add: eval_defs)
  then obtain om where h: "run (0::nat) New [SetOp (1::nat) 10, SetOp 2 20, DeleteOp 1, SetOp 3 30] = Inr om"
    "Len om \<le> 2" by blast
  from traversal_symmetry [OF h] h show ?thesis by blast
qed

text \<open>
  Claim C7. For every map state and every key \<open>k\<close>, the loop that starts at
  \<open>GetPair(k)\<close> and advances by \<open>Next()\<close> visits the suffix of the traversal from
  \<open>Oldest()\<close> that starts at \<open>k\<close>. If \<open>k\<close> is present, \<open>GetPair(k)\<close> is the \<open>Pair\<close> of
  \<open>k\<close> and that suffix begins with it; if \<open>k\<close> is absent, \<open>GetPair(k)\<close> is nil.
\<close>

theorem GetPair_resumes_traversal:
  assumes "run empty_v New ops = Inr om" and "Len om \<le> fuel"
  shows "\<exists>es. forward fuel om = Inr es
           \<and> iterate_next fuel om (GetPair om k) = Inr (dropWhile (\<lambda>(k', v'). k' \<noteq> k) es)
           \<and> (k \<in> dom (pairs om) \<longrightarrow>
                (\<exists>p pair. GetPair om k = Some p \<and> store om p = Some pair \<and> Key pair = k
                   \<and> dropWhile (\<lambda>(k', v'). k' \<noteq> k) es \<noteq> []
                   \<and> hd (dropWhile (\<lambda>(k', v'). k' \<noteq> k) es) = (k, Value pair)))
           \<and> (k \<notin> dom (pairs om) \<longrightarrow> GetPair om k = None)"
proof -
  from reachable_abs [OF assms(1)] obtain cs where a: "abstracts om cs" by blast
  from assms(2) Len_abs [OF a] have f: "length cs \<le> fuel" by simp
  have F: "forward fuel om = Inr (kvs cs)" by (rule forward_abs [OF a f])
  show ?thesis
  proof (cases "k \<in> key ` set cs")
    case False
    then have n: "k \<notin> dom (pairs om)" using abstracts_dom [OF a] by simp
    then have G: "GetPair om k = None" by (auto simp: GetPair_def)
    from False have "\<forall>x \<in> set (kvs cs). (\<lambda>(k', v'). k' \<noteq> k) x"
      by (auto simp: kvs_def)
    then have dw: "dropWhile (\<lambda>(k', v'). k' \<noteq> k) (kvs cs) = []" by simp
    have "iterate_next fuel om (GetPair om k) = Inr (dropWhile (\<lambda>(k', v'). k' \<noteq> k) (kvs cs))"
      by (simp only: G dw iterate_next.simps)
    with F G n show ?thesis by blast
  next
    case True
    then obtain c where c: "c \<in> set cs" "key c = k" by auto
    from c(1) obtain as bs where cs: "cs = as @ c # bs" by (auto dest: split_list)
    from a have "distinct (map key cs)" by (simp add: abstracts_def)
    with cs c(2) have "k \<notin> key ` set as" by auto
    then have "\<And>x. x \<in> set (kvs as) \<Longrightarrow> (\<lambda>(k', v'). k' \<noteq> k) x"
      by (auto simp: kvs_def)
    then have dw: "dropWhile (\<lambda>(k', v'). k' \<noteq> k) (kvs cs) = (k, val c) # kvs bs"
      unfolding cs kvs_simps by (simp add: c(2))
    have G: "GetPair om k = Some (ptr c)"
      using abstracts_cell(1) [OF a c(1)] c(2) by (simp add: GetPair_def)
    have T: "store om (ptr c) = Some \<lparr>Key = k, Value = val c, element = Some (hnd c)\<rparr>"
      using abstracts_cell(2) [OF a c(1)] c(2) by simp
    from f cs have "length (c # bs) \<le> fuel" by simp
    from iterate_next_abs [OF a [unfolded cs] this] c(2)
    have I: "iterate_next fuel om (Some (ptr c)) = Inr ((k, val c) # kvs bs)" by simp
    have d: "k \<in> dom (pairs om)" using abstracts_dom [OF a] True by simp
    have "iterate_next fuel om (GetPair om k) = Inr (dropWhile (\<lambda>(k', v'). k' \<noteq> k) (kvs cs))"
      by (simp only: G dw I)
    moreover have "\<exists>p pair. GetPair om k = Some p \<and> store om p = Some pair \<and> Key pair = k
                   \<and> dropWhile (\<lambda>(k', v'). k' \<noteq> k) (kvs cs) \<noteq> []
                   \<and> hd (dropWhile (\<lambda>(k', v'). k' \<noteq> k) (kvs cs)) = (k, Value pair)"
      using G T by (simp add: dw)
    ultimately show ?thesis using F d by blast
  qed
qed

theorem GetPair_resumes_traversal_witness:
  "\<exists>om. run (0::nat) New [SetOp (1::nat) 10, SetOp 2 20, SetOp 3 30] = Inr om
     \<and> Len om \<le> 3 \<and> 2 \<in> dom (pairs om) \<and> 7 \<notin> dom (pairs om)
     \<and> (\<exists>es. forward 3 om = Inr es
           \<and> iterate_next 3 om (GetPair om 2) = Inr (dropWhile (\<lambda>(k', v'). k' \<noteq> 2) es)
           \<and> (\<exists>p pair. GetPair om 2 = Some p \<and> store om p = Some pair \<and> Key pair = 2
                   \<and> dropWhile (\<lambda>(k', v'). k' \<noteq> 2) es \<noteq> []
                   \<and> hd (dropWhile (\<lambda>(k', v'). k' \<noteq> 2) es) = (2, Value pair)))
     \<and> GetPair om 7 = None"
proof -
  have "\<exists>om. run (0::nat) New [SetOp (1::nat) 10, SetOp 2 20, SetOp 3 30] = Inr om
     \<and> Len om \<le> 3 \<and> 2 \<in> dom (pairs om) \<and> 7 \<notin> dom (pairs om)"
    by (simp add: eval_defs)
  then obtain om where h: "run (0::nat) New [SetOp (1::nat) 10, SetOp 2 20, SetOp 3 30] = Inr om"
    "Len om \<le> 3" and p: "2 \<in> dom (pairs om)" and q: "7 \<notin> dom (pairs om)" by blast
  from GetPair_resumes_traversal [OF h, of 2] GetPair_resumes_traversal [OF h, of 7] h p q
  show ?thesis by blast
qed

text \<open>
  Claim C8. For every map state, \<open>Get(key)\<close> returns the value currently associated with
  the key together with true if the key is present, and the zero value together with false
  if it is absent; the current association is the one the specification describes
  (\<open>spec_assoc\<close>), and it is also what the traversal shows. \<open>Get\<close> does not change the map:
  the map after the call is the map before it.
\<close>

theorem Get_returns_association:
  assumes "run empty_v New ops = Inr om"
  shows "Get empty_v om k =
           Inr ((case spec_assoc ops k of None \<Rightarrow> (empty_v, False) | Some v \<Rightarrow> (v, True)), om)
       \<and> (k \<in> dom (pairs om) \<longleftrightarrow> k \<in> dom (spec_assoc ops))
       \<and> (\<forall>fuel \<ge> Len om. \<exists>es. forward fuel om = Inr es \<and> map_of es = spec_assoc ops)"
proof -
  from reachable_refines [OF assms] obtain cs where
    a: "abstracts om cs" and m: "map_of (kvs cs) = spec_assoc ops" by blast
  have 1: "Get empty_v om k =
      Inr ((case spec_assoc ops k of None \<Rightarrow> (empty_v, False) | Some v \<Rightarrow> (v, True)), om)"
    using Get_abs [OF a, of empty_v k] by (simp only: m)
  have "dom (map_of (kvs cs)) = key ` set cs"
    by (simp add: dom_map_of_conv_image_fst kvs_def image_image)
  then have 2: "k \<in> dom (pairs om) \<longleftrightarrow> k \<in> dom (spec_assoc ops)"
    using abstracts_dom [OF a] by (simp only: m)
  have 3: "\<forall>fuel \<ge> Len om. \<exists>es. forward fuel om = Inr es \<and> map_of es = spec_assoc ops"
    using forward_abs [OF a] Len_abs [OF a] m by simp
  from 1 2 3 show ?thesis by blast
qed

theorem Get_returns_association_witness:
  "\<exists>om. run (0::nat) New [SetOp (1::nat) 10, SetOp 2 20, SetOp 1 11, DeleteOp 2] = Inr om
     \<and> Len om \<le> 3
     \<and> Get 0 om 1 = Inr ((11, True), om)
     \<and> Get 0 om 2 = Inr ((0, False), om)
     \<and> 1 \<in> dom (pairs om) \<and> 2 \<notin> dom (pairs om)
     \<and> (\<exists>es. forward 3 om = Inr es
           \<and> map_of es = spec_assoc [SetOp (1::nat) 10, SetOp 2 20, SetOp 1 11, DeleteOp 2])"
proof -
  let ?ops = "[SetOp (1::nat) (10::nat), SetOp 2 20, SetOp 1 11, DeleteOp 2]"
  have "\<exists>om. run (0::nat) New ?ops = Inr om \<and> Len om \<le> 3"
    by (simp add: eval_defs)
  then obtain om where h: "run (0::nat) New ?ops = Inr om" and l: "Len om \<le> 3" by blast
  have s: "spec_assoc ?ops 1 = Some 11" "spec_assoc ?ops 2 = None"
    by (simp_all add: spec_assoc_def)
  from Get_returns_association [OF h, of 1] Get_returns_association [OF h, of 2] s l
  have "Get 0 om 1 = Inr ((11, True), om)" "Get 0 om 2 = Inr ((0, False), om)"
    "1 \<in> dom (pairs om)" "2 \<notin> dom (pairs om)"
    "\<exists>es. forward 3 om = Inr es \<and> map_of es = spec_assoc ?ops"
    by auto
  with h l show ?thesis by blast
qed

text \<open>
  Claim C9. For every map state and keys \<open>k' \<noteq> k\<close>: neither \<open>Set(k, v)\<close> nor
  \<open>Delete(k)\<close> changes what \<open>Get(k')\<close> returns, and the traversal restricted to the keys
  other than \<open>k\<close> is the same before and after either call.
\<close>

theorem Set_Delete_frame:
  assumes "run empty_v New ops = Inr om" and "k' \<noteq> k" and "Len om \<le> fuel"
  shows "\<exists>r1 om1 r2 om2 g es es1 es2.
           Set empty_v om k v = Inr (r1, om1)
         \<and> Delete empty_v om k = Inr (r2, om2)
         \<and> Get empty_v om k' = Inr (g, om)
         \<and> Get empty_v om1 k' = Inr (g, om1)
         \<and> Get empty_v om2 k' = Inr (g, om2)
         \<and> forward fuel om = Inr es
         \<and> forward (Suc fuel) om1 = Inr es1
         \<and> forward fuel om2 = Inr es2
         \<and> filter (\<lambda>(x, y). x \<noteq> k) es1 = filter (\<lambda>(x, y). x \<noteq> k) es
         \<and> filter (\<lambda>(x, y). x \<noteq> k) es2 = filter (\<lambda>(x, y). x \<noteq> k) es"
proof -
  from reachable_abs [OF assms(1)] obtain cs where a: "abstracts om cs" by blast
  from assms(3) Len_abs [OF a] have f: "length cs \<le> fuel" by simp
  from Set_abs [OF a, of empty_v k v] obtain r1 om1 cs1 where
    S: "Set empty_v om k v = Inr (r1, om1)" and a1: "abstracts om1 cs1" and
    k1: "kvs cs1 = (if k \<in> key ` set cs
                   then map (\<lambda>(k', v'). if k' = k then (k', v) else (k', v')) (kvs cs)
                   else kvs cs @ [(k, v)])" and
    m1: "map_of (kvs cs1) = (map_of (kvs cs))(k \<mapsto> v)" by blast
  from Delete_abs [OF a, of empty_v k] obtain r2 om2 cs2 where
    D: "Delete empty_v om k = Inr (r2, om2)" and a2: "abstracts om2 cs2" and
    k2: "kvs cs2 = filter (\<lambda>(k', v'). k' \<noteq> k) (kvs cs)" and
    m2: "map_of (kvs cs2) = (map_of (kvs cs))(k := None)" by blast
  define g where "g = (case map_of (kvs cs) k' of None \<Rightarrow> (empty_v, False) | Some x \<Rightarrow> (x, True))"
  have G: "Get empty_v om k' = Inr (g, om)"
    using Get_abs [OF a, of empty_v k'] by (simp add: g_def)
  have G1: "Get empty_v om1 k' = Inr (g, om1)"
    using Get_abs [OF a1, of empty_v k'] assms(2) by (simp add: g_def m1)
  have G2: "Get empty_v om2 k' = Inr (g, om2)"
    using Get_abs [OF a2, of empty_v k'] assms(2) by (simp add: g_def m2)
  have "length (kvs cs1) \<le> Suc (length (kvs cs))" by (simp only: k1) simp
  with f have f1: "length cs1 \<le> Suc fuel" by simp
  have "length (kvs cs2) \<le> length (kvs cs)" by (simp only: k2 length_filter_le)
  with f have f2: "length cs2 \<le> fuel" by simp
  have F: "forward fuel om = Inr (kvs cs)" by (rule forward_abs [OF a f])
  have F1: "forward (Suc fuel) om1 = Inr (kvs cs1)" by (rule forward_abs [OF a1 f1])
  have F2: "forward fuel om2 = Inr (kvs cs2)" by (rule forward_abs [OF a2 f2])
  have E1: "filter (\<lambda>(x, y). x \<noteq> k) (kvs cs1) = filter (\<lambda>(x, y). x \<noteq> k) (kvs cs)"
    by (simp only: k1) (simp add: filter_upd_other)
  have E2: "filter (\<lambda>(x, y). x \<noteq> k) (kvs cs2) = filter (\<lambda>(x, y). x \<noteq> k) (kvs cs)"
    by (simp only: k2) simp
  from S D G G1 G2 F F1 F2 E1 E2 show ?thesis by blast
qed

theorem Set_Delete_frame_witness:
  "\<exists>om. run (0::nat) New [SetOp (1::nat) 10, SetOp 2 20, SetOp 3 30] = Inr om
     \<and> (3::nat) \<noteq> 2 \<and> Len om \<le> 3
     \<and> (\<exists>r1 om1 r2 om2 g es es1 es2.
           Set 0 om 2 99 = Inr (r1, om1)
         \<and> Delete 0 om 2 = Inr (r2, om2)
         \<and> Get 0 om 3 = Inr (g, om)
         \<and> Get 0 om1 3 = Inr (g, om1)
         \<and> Get 0 om2 3 = Inr (g, om2)
         \<and> forward 3 om = Inr es
         \<and> forward (Suc 3) om1 = Inr es1
         \<and> forward 3 om2 = Inr es2
         \<and> filter (\<lambda>(x, y). x \<noteq> 2) es1 = filter (\<lambda>(x, y). x \<noteq> 2) es
         \<and> filter (\<lambda>(x, y). x \<noteq> 2) es2 = filter (\<lambda>(x, y). x \<noteq> 2) es)"
proof -
  have "\<exists>om. run (0::nat) New [SetOp (1::nat) 10, SetOp 2 20, SetOp 3 30] = Inr om
     \<and> Len om \<le> 3"
    by (simp add: eval_defs)
  then obtain om where h: "run (0::nat) New [SetOp (1::nat) 10, SetOp 2 20, SetOp 3 30] = Inr om"
    and l: "Len om \<le> 3" by blast
  have n: "(3::nat) \<noteq> 2" by simp
  from Set_Delete_frame [OF h n l, of 99] h n l show ?thesis by blast
qed

text \<open>
  Claim C10, amended. \<open>New()\<close> takes no argument and creates an empty container:
  \<open>Len()\<close> is 0, \<open>Oldest()\<close> and \<open>Newest()\<close> are nil, both traversals visit nothing and
  every \<open>Get\<close> reports absence.
\<close>

theorem New_is_empty:
  "New_call None = Some New
   \<and> New_call (Some n) = None
   \<and> Len New = 0
   \<and> list_Len (list_om New) = 0
   \<and> Oldest New = Inr None
   \<and> Newest New = Inr None
   \<and> forward fuel New = Inr []
   \<and> backward fuel New = Inr []
   \<and> Get empty_v New k = Inr ((empty_v, False), New)"
  by (simp add: New_call_def New_def list_New_def Len_def list_Len_def Oldest_def Newest_def
      Front_def Back_def listElementToPair_def forward_def backward_def Get_def)

text \<open>
  The claim as stated (C10) also lets the construction accept a pre-size: a call with an
  initial capacity constructs nothing, since \<open>New\<close> has no such parameter.
\<close>

theorem New_takes_no_capacity:
  "(New_call (Some 16) :: (nat, nat) OrderedMap option) = None"
  by (simp add: New_call_def)

end
